theory Spec2Isabelle
  imports Complex_Main "HOL-Library.Sublist" "HOL-Library.AList" "HOL-Library.Multiset"
begin

section \<open>Python strings and slices\<close>

text \<open>
  A Python \<open>str\<close> is a sequence of Unicode code points, and the chunker's patterns name
  code points beyond ASCII, so a string is a list of code points here.  Identifiers that
  the code only compares for equality (URLs, tool names, call ids) are plain strings.
\<close>

type_synonym ustring = "nat list"

text \<open>\<open>str.isspace\<close> on one code point; the same table drives \<open>str.strip()\<close> and the
  class \<open>\s\<close> of \<open>re\<close> on \<open>str\<close> patterns.\<close>

definition is_space :: "nat \<Rightarrow> bool" where
  "is_space c \<longleftrightarrow>
     (9 \<le> c \<and> c \<le> 13) \<or> (28 \<le> c \<and> c \<le> 32) \<or> c = 133 \<or> c = 160 \<or> c = 5760 \<or>
     (8192 \<le> c \<and> c \<le> 8202) \<or> c = 8232 \<or> c = 8233 \<or> c = 8239 \<or> c = 8287 \<or> c = 12288"

text \<open>\<open>s.strip()\<close>\<close>

definition strip :: "ustring \<Rightarrow> ustring" where
  "strip s = rev (dropWhile is_space (rev (dropWhile is_space s)))"

text \<open>A slice bound as Python normalises it: a negative bound counts from the end, and
  every bound is clamped to \<open>0..len\<close>.\<close>

definition slice_bound :: "nat \<Rightarrow> int \<Rightarrow> nat" where
  "slice_bound n i = (if i < 0 then nat (max 0 (int n + i)) else min (nat i) n)"

text \<open>\<open>xs[a:b]\<close> and \<open>xs[a:]\<close>\<close>

definition py_slice :: "'a list \<Rightarrow> int \<Rightarrow> int \<Rightarrow> 'a list" where
  "py_slice xs a b =
     (let lo = slice_bound (length xs) a; hi = slice_bound (length xs) b
      in take (hi - lo) (drop lo xs))"

definition py_slice_from :: "'a list \<Rightarrow> int \<Rightarrow> 'a list" where
  "py_slice_from xs a = drop (slice_bound (length xs) a) xs"

section \<open>The chunker (\<open>vector_store._split_into_chunks\<close>)\<close>

definition CHUNK_SIZE :: int where "CHUNK_SIZE = 400"
definition CHUNK_OVERLAP :: int where "CHUNK_OVERLAP = 100"
definition MIN_CHUNK_SIZE :: nat where "MIN_CHUNK_SIZE = 50"

text \<open>The class of sentence ends: ideographic full stop, full-width \<open>!\<close> and \<open>?\<close>,
  and ASCII \<open>.\<close>, \<open>!\<close>, \<open>?\<close>, newline.\<close>

definition is_sentence_end :: "nat \<Rightarrow> bool" where
  "is_sentence_end c \<longleftrightarrow> c = 12290 \<or> c = 65281 \<or> c = 65311 \<or> c = 46 \<or> c = 33 \<or> c = 63 \<or> c = 10"

text \<open>The second class: white space, comma and semicolon in ASCII and full width, and
  the ideographic comma.\<close>

definition is_soft_break :: "nat \<Rightarrow> bool" where
  "is_soft_break c \<longleftrightarrow> is_space c \<or> c = 44 \<or> c = 65292 \<or> c = 59 \<or> c = 65307 \<or> c = 12289"

text \<open>\<open>re.finditer\<close> of a one-character class: the \<open>end()\<close> offset of every match, in
  order, counted from offset \<open>i\<close> of the first character.\<close>

fun finditer_ends :: "(nat \<Rightarrow> bool) \<Rightarrow> ustring \<Rightarrow> nat \<Rightarrow> nat list" where
  "finditer_ends p [] i = []"
| "finditer_ends p (c # cs) i = (if p c then [Suc i] else []) @ finditer_ends p cs (Suc i)"

text \<open>The loop \<open>for m in re.finditer(...): boundary_match = m\<close> keeps the last match.\<close>

definition last_match_end :: "(nat \<Rightarrow> bool) \<Rightarrow> ustring \<Rightarrow> nat option" where
  "last_match_end p region =
     (case finditer_ends p region 0 of [] \<Rightarrow> None | e # es \<Rightarrow> Some (last (e # es)))"

text \<open>The cut position of the window that starts at \<open>start\<close>.\<close>

definition find_cut :: "ustring \<Rightarrow> int \<Rightarrow> int" where
  "find_cut text start =
     (let endp = start + CHUNK_SIZE in
      case last_match_end is_sentence_end (py_slice text (max start (endp - 80)) endp) of
        Some e \<Rightarrow> max start (endp - 80) + int e
      | None \<Rightarrow>
          (case last_match_end is_soft_break (py_slice text (max start (endp - 40)) endp) of
             Some e \<Rightarrow> max start (endp - 40) + int e
           | None \<Rightarrow> endp))"

text \<open>Moving the window: back by the overlap, or to the cut itself when that would not
  advance.\<close>

definition next_start :: "int \<Rightarrow> int" where
  "next_start cut_pos =
     (let start = cut_pos - CHUNK_OVERLAP
      in if start \<le> cut_pos - CHUNK_SIZE then cut_pos else start)"

text \<open>What the loop body does with a segment cut inside the text: append it, or merge a
  short one into the previous chunk.\<close>

definition emit_mid :: "ustring list \<Rightarrow> ustring \<Rightarrow> ustring list" where
  "emit_mid chunks chunk =
     (if chunk \<noteq> [] \<and> MIN_CHUNK_SIZE \<le> length chunk then chunks @ [chunk]
      else if chunk \<noteq> [] \<and> chunks \<noteq> [] then butlast chunks @ [last chunks @ [32] @ chunk]
      else chunks)"

text \<open>The same for the last segment, which is also kept when it is short and there is
  no chunk to merge it into.\<close>

definition emit_last :: "ustring list \<Rightarrow> ustring \<Rightarrow> ustring list" where
  "emit_last chunks chunk =
     (if chunk \<noteq> [] \<and> MIN_CHUNK_SIZE \<le> length chunk then chunks @ [chunk]
      else if chunk \<noteq> [] \<and> chunks \<noteq> [] then butlast chunks @ [last chunks @ [32] @ chunk]
      else if chunk \<noteq> [] then chunks @ [chunk]
      else chunks)"

lemma finditer_ends_bounds:
  "e \<in> set (finditer_ends p cs i) \<Longrightarrow> i < e \<and> e \<le> i + length cs"
  by (induction cs arbitrary: i) (fastforce split: if_splits)+

lemma last_match_end_bounds:
  assumes "last_match_end p region = Some e"
  shows "0 < e \<and> e \<le> length region"
proof -
  from assms obtain x xs where eq: "finditer_ends p region 0 = x # xs" and e: "e = last (x # xs)"
    by (auto simp: last_match_end_def split: list.splits)
  have "last (x # xs) \<in> set (x # xs)" by (rule last_in_set) simp
  with eq e have "e \<in> set (finditer_ends p region 0)" by simp
  from finditer_ends_bounds[OF this] show ?thesis by simp
qed

lemma length_py_slice: "a \<le> b \<Longrightarrow> length (py_slice xs a b) \<le> nat (b - a)"
  by (auto simp: py_slice_def slice_bound_def Let_def)

lemma find_cut_lower: "start + 320 < find_cut tx start"
  by (auto simp: find_cut_def CHUNK_SIZE_def Let_def
      split: option.splits dest!: last_match_end_bounds)

lemma last_match_end_slice:
  assumes "last_match_end p (py_slice xs a b) = Some e" and "a \<le> b"
  shows "int e \<le> b - a"
  using last_match_end_bounds[OF assms(1)] length_py_slice[OF assms(2), of xs] assms(2) by linarith

lemma find_cut_upper: "find_cut tx start \<le> start + 400"
  using last_match_end_slice[of is_sentence_end tx "max start (start + CHUNK_SIZE - 80)"
      "start + CHUNK_SIZE"]
    last_match_end_slice[of is_soft_break tx "max start (start + CHUNK_SIZE - 40)"
      "start + CHUNK_SIZE"]
  by (auto simp: find_cut_def Let_def CHUNK_SIZE_def split: option.splits)

lemma next_start_eq: "next_start cut_pos = cut_pos - 100"
  by (simp add: next_start_def CHUNK_OVERLAP_def CHUNK_SIZE_def)

lemma next_start_advances: "start + 220 < next_start (find_cut tx start)"
  using find_cut_lower[of start tx] by (simp add: next_start_eq)

text \<open>The \<open>while start < text_len\<close> loop.  The branch that reaches the end of the text
  is the one that ends in \<open>break\<close>.\<close>

function split_loop :: "ustring \<Rightarrow> int \<Rightarrow> ustring list \<Rightarrow> ustring list" where
  "split_loop text start chunks =
     (if start < int (length text) then
        (if int (length text) \<le> start + CHUNK_SIZE
         then emit_last chunks (strip (py_slice_from text start))
         else
           (let cut_pos = find_cut text start
            in split_loop text (next_start cut_pos)
                 (emit_mid chunks (strip (py_slice text start cut_pos)))))
      else chunks)"
  by pat_completeness auto
termination
proof (relation "measure (\<lambda>(text, start, chunks). nat (int (length text) - start))")
  show "wf (measure (\<lambda>(text, start, chunks). nat (int (length text) - start)))"
    by simp
next
  fix tx :: ustring and start :: int and chunks :: "ustring list" and x :: int
  assume "start < int (length tx)" and "x = find_cut tx start"
  then show "((tx, next_start x, emit_mid chunks (strip (py_slice tx start x))),
              (tx, start, chunks))
             \<in> measure (\<lambda>(text, start, chunks). nat (int (length text) - start))"
    using next_start_advances[of start tx] by simp
qed

declare split_loop.simps [simp del]

definition split_into_chunks :: "ustring \<Rightarrow> ustring list" where
  "split_into_chunks text =
     (if text = [] \<or> int (length text) \<le> CHUNK_SIZE then
        (if text \<noteq> [] \<and> MIN_CHUNK_SIZE \<le> length text then [text]
         else if text \<noteq> [] then [text] else [])
      else
        (let chunks = split_loop text 0 []
         in if chunks \<noteq> [] then chunks else [text]))"

definition split_text :: "ustring \<Rightarrow> ustring list" where
  "split_text text = split_into_chunks text"

subsection \<open>Facts about the chunker\<close>

lemma strip_span:
  "\<exists>i j. i \<le> j \<and> j \<le> length s \<and> strip s = take (j - i) (drop i s) \<and>
     (\<forall>q<length s. \<not> is_space (s ! q) \<longrightarrow> i \<le> q \<and> q < j)"
proof -
  define i where "i = length (takeWhile is_space s)"
  define ys where "ys = drop i s"
  define k where "k = length (takeWhile is_space (rev ys))"
  define j where "j = length s - k"
  have ys: "dropWhile is_space s = ys"
    by (simp add: ys_def i_def dropWhile_eq_drop)
  have kle: "k \<le> length ys"
    unfolding k_def using length_takeWhile_le[of is_space "rev ys"] by simp
  have ile: "i \<le> length s"
    unfolding i_def by (rule length_takeWhile_le)
  have st: "strip s = take (length ys - k) ys"
    by (simp add: strip_def ys dropWhile_eq_drop[of is_space "rev ys"] k_def[symmetric] rev_drop)
  have len: "length ys = length s - i" by (simp add: ys_def)
  have 1: "i \<le> j" using kle len ile by (simp add: j_def)
  have 2: "j \<le> length s" by (simp add: j_def)
  have e: "j - i = length ys - k" unfolding j_def len by arith
  have 3: "strip s = take (j - i) (drop i s)"
    unfolding e st by (simp only: ys_def)
  have 4: "i \<le> q \<and> q < j" if q: "q < length s" and ns: "\<not> is_space (s ! q)" for q
  proof
    show "i \<le> q"
    proof (rule ccontr)
      assume "\<not> i \<le> q"
      then have "q < length (takeWhile is_space s)" by (simp add: i_def)
      then have "takeWhile is_space s ! q \<in> set (takeWhile is_space s)" by simp
      moreover have "takeWhile is_space s ! q = s ! q"
        using \<open>q < length (takeWhile is_space s)\<close> by (rule takeWhile_nth)
      ultimately show False using ns by (auto dest: set_takeWhileD)
    qed
    show "q < j"
    proof (rule ccontr)
      assume nq: "\<not> q < j"
      define r where "r = length s - 1 - q"
      have rk: "r < k" using nq q kle len ile unfolding j_def r_def by arith
      then have "takeWhile is_space (rev ys) ! r \<in> set (takeWhile is_space (rev ys))"
        by (simp add: k_def)
      moreover have "takeWhile is_space (rev ys) ! r = rev ys ! r"
        using rk unfolding k_def by (rule takeWhile_nth)
      moreover have "rev ys ! r = s ! q"
      proof -
        have "r < length ys" using rk kle by simp
        then have "rev ys ! r = ys ! (length ys - Suc r)" by (rule rev_nth)
        also have "length ys - Suc r = q - i"
          using q len ile \<open>i \<le> q\<close> unfolding r_def by arith
        also have "ys ! (q - i) = s ! q"
          using \<open>i \<le> q\<close> ile by (simp add: ys_def)
        finally show ?thesis .
      qed
      ultimately show False using ns by (auto dest: set_takeWhileD)
    qed
  qed
  from 1 2 3 4 show ?thesis by blast
qed

lemma length_strip: "length (strip s) \<le> length s"
  using strip_span[of s] by auto
























subsection \<open>Evaluating the chunker on texts made of runs\<close>

lemma finditer_ends_none: "\<forall>c\<in>set cs. \<not> p c \<Longrightarrow> finditer_ends p cs i = []"
  by (induction cs arbitrary: i) auto

lemma last_match_end_none: "\<forall>c\<in>set cs. \<not> p c \<Longrightarrow> last_match_end p cs = None"
  by (simp add: last_match_end_def finditer_ends_none)

lemma finditer_ends_replicate:
  "p c \<Longrightarrow> finditer_ends p (replicate n c) i = [Suc i..<Suc (i + n)]"
proof (induction n arbitrary: i)
  case 0
  then show ?case by simp
next
  case (Suc n)
  then have "finditer_ends p (replicate (Suc n) c) i = Suc i # [Suc (Suc i)..<Suc (Suc i + n)]"
    by simp
  also have "\<dots> = [Suc i..<Suc (i + Suc n)]"
    by (simp add: upt_conv_Cons)
  finally show ?case .
qed

lemma last_match_end_replicate:
  assumes "p c" and "0 < n"
  shows "last_match_end p (replicate n c) = Some n"
proof -
  have "finditer_ends p (replicate n c) 0 = [Suc 0..<Suc n]"
    using finditer_ends_replicate[of p c n 0] assms(1) by simp
  also have "\<dots> = [Suc 0..<n] @ [n]"
    using assms(2) by (simp add: upt_Suc_append)
  finally have eq: "finditer_ends p (replicate n c) 0 = [Suc 0..<n] @ [n]" .
  obtain e es where ees: "[Suc 0..<n] @ [n] = e # es"
    by (cases "[Suc 0..<n] @ [n]") auto
  have "last (e # es) = n" unfolding ees[symmetric] by simp
  then show ?thesis unfolding last_match_end_def eq ees by simp
qed

lemma strip_pad:
  assumes "s \<noteq> []" and "\<not> is_space (hd s)" and "\<not> is_space (last s)"
    and "\<forall>c\<in>set l. is_space c" and "\<forall>c\<in>set r. is_space c"
  shows "strip (l @ s @ r) = s"
proof -
  from assms(1) obtain a s' where s: "s = a # s'" by (cases s) auto
  have "dropWhile is_space (l @ s @ r) = dropWhile is_space (s @ r)"
    using assms(4) by simp
  also have "\<dots> = s @ r" using assms(2) by (simp add: s)
  finally have 1: "dropWhile is_space (l @ s @ r) = s @ r" .
  from assms(1) obtain b t where t: "rev s = b # t" by (cases "rev s") auto
  have b: "b = last s" using t assms(1) by (metis list.sel(1) hd_rev)
  have "\<And>x. x \<in> set (rev r) \<Longrightarrow> is_space x" using assms(5) by simp
  then have "dropWhile is_space (rev r @ rev s) = dropWhile is_space (rev s)"
    by (rule dropWhile_append2)
  then have "dropWhile is_space (rev (s @ r)) = dropWhile is_space (rev s)"
    by simp
  also have "\<dots> = rev s" using assms(3) b by (simp add: t)
  finally show ?thesis by (simp add: strip_def 1)
qed

lemma strip_id: "s \<noteq> [] \<Longrightarrow> \<not> is_space (hd s) \<Longrightarrow> \<not> is_space (last s) \<Longrightarrow> strip s = s"
  using strip_pad[of s "[]" "[]"] by simp

lemma cut_runs_a:
  "find_cut (replicate 300 97 @ replicate 150 32 @ replicate 200 98) 0 = 400"
proof -
  let ?T = "replicate 300 97 @ replicate 150 32 @ replicate 200 (98::nat)"
  have r1: "py_slice ?T 320 400 = replicate 80 32"
    by (simp add: py_slice_def slice_bound_def)
  have r2: "py_slice ?T 360 400 = replicate 40 32"
    by (simp add: py_slice_def slice_bound_def)
  have 1: "last_match_end is_sentence_end (replicate 80 32) = None"
    by (rule last_match_end_none) (simp add: is_sentence_end_def)
  have 2: "last_match_end is_soft_break (replicate 40 32) = Some 40"
    by (rule last_match_end_replicate) (simp_all add: is_soft_break_def is_space_def)
  show ?thesis
    by (simp add: find_cut_def CHUNK_SIZE_def r1 r2 1 2)
qed

lemma split_runs_a:
  "split_text (replicate 300 97 @ replicate 150 32 @ replicate 200 98)
     = [replicate 300 97, replicate 200 98]"
proof -
  let ?T = "replicate 300 97 @ replicate 150 32 @ replicate 200 (98::nat)"
  have s1: "strip (py_slice ?T 0 400) = replicate 300 97"
    using strip_pad[of "replicate 300 97" "[]" "replicate 100 32"]
    by (simp add: py_slice_def slice_bound_def is_space_def)
  have s2: "strip (py_slice_from ?T 300) = replicate 200 98"
    using strip_pad[of "replicate 200 98" "replicate 150 32" "[]"]
    by (simp add: py_slice_from_def slice_bound_def is_space_def)
  have "split_loop ?T 0 [] = split_loop ?T 300 [replicate 300 97]"
    by (subst split_loop.simps)
      (simp add: cut_runs_a s1 next_start_eq CHUNK_SIZE_def emit_mid_def MIN_CHUNK_SIZE_def)
  also have "\<dots> = [replicate 300 97, replicate 200 98]"
    by (subst split_loop.simps)
      (simp add: s2 CHUNK_SIZE_def emit_last_def MIN_CHUNK_SIZE_def)
  finally show ?thesis
    by (simp add: split_text_def split_into_chunks_def CHUNK_SIZE_def)
qed

lemma cut_runs_b:
  "find_cut (replicate 300 97 @ replicate 60 32 @ replicate 40 97 @ [32]) 0 = 400"
proof -
  let ?T = "replicate 300 97 @ replicate 60 32 @ replicate 40 97 @ [32::nat]"
  have r1: "py_slice ?T 320 400 = replicate 40 32 @ replicate 40 97"
    by (simp add: py_slice_def slice_bound_def)
  have r2: "py_slice ?T 360 400 = replicate 40 97"
    by (simp add: py_slice_def slice_bound_def)
  have 1: "last_match_end is_sentence_end (replicate 40 32 @ replicate 40 97) = None"
    by (rule last_match_end_none) (simp add: is_sentence_end_def)
  have 2: "last_match_end is_soft_break (replicate 40 97) = None"
    by (rule last_match_end_none) (simp add: is_soft_break_def is_space_def)
  show ?thesis
    by (simp add: find_cut_def CHUNK_SIZE_def r1 r2 1 2)
qed

lemma split_runs_b:
  "split_text (replicate 300 97 @ replicate 60 32 @ replicate 40 97 @ [32])
     = [replicate 300 97 @ replicate 60 32 @ replicate 40 97 @ [32] @ replicate 40 97]"
proof -
  let ?T = "replicate 300 97 @ replicate 60 32 @ replicate 40 97 @ [32::nat]"
  let ?A = "replicate 300 97 @ replicate 60 32 @ replicate 40 (97::nat)"
  have s1: "strip (py_slice ?T 0 400) = ?A"
    using strip_id[of ?A]
    by (simp add: py_slice_def slice_bound_def is_space_def)
  have s2: "strip (py_slice_from ?T 300) = replicate 40 97"
    using strip_pad[of "replicate 40 97" "replicate 60 32" "[32]"]
    by (simp add: py_slice_from_def slice_bound_def is_space_def)
  have "split_loop ?T 0 [] = split_loop ?T 300 [?A]"
    by (subst split_loop.simps)
      (simp add: cut_runs_b s1 next_start_eq CHUNK_SIZE_def emit_mid_def MIN_CHUNK_SIZE_def)
  also have "\<dots> = [?A @ [32] @ replicate 40 97]"
    by (subst split_loop.simps)
      (simp add: s2 CHUNK_SIZE_def emit_last_def MIN_CHUNK_SIZE_def)
  finally show ?thesis
    by (simp add: split_text_def split_into_chunks_def CHUNK_SIZE_def)
qed

definition min_sized :: "ustring list \<Rightarrow> bool" where
  "min_sized chunks \<longleftrightarrow> (\<forall>c\<in>set chunks. MIN_CHUNK_SIZE \<le> length c)"

definition well_sized :: "ustring list \<Rightarrow> bool" where
  "well_sized chunks \<longleftrightarrow>
     (\<forall>c\<in>set chunks. c \<noteq> [] \<and> (length chunks \<noteq> 1 \<longrightarrow> MIN_CHUNK_SIZE \<le> length c))"

lemma min_sized_well: "min_sized chunks \<Longrightarrow> well_sized chunks"
  by (auto simp: min_sized_def well_sized_def MIN_CHUNK_SIZE_def)

lemma min_sized_merge:
  assumes "min_sized chunks" and "chunks \<noteq> []"
  shows "min_sized (butlast chunks @ [last chunks @ x])"
proof -
  have "MIN_CHUNK_SIZE \<le> length (last chunks)"
    using assms by (simp add: min_sized_def)
  moreover have "\<forall>c\<in>set (butlast chunks). MIN_CHUNK_SIZE \<le> length c"
    using assms(1) by (auto simp: min_sized_def dest: in_set_butlastD)
  ultimately show ?thesis by (auto simp: min_sized_def)
qed

lemma emit_mid_min_sized: "min_sized chunks \<Longrightarrow> min_sized (emit_mid chunks seg)"
  by (simp add: emit_mid_def min_sized_merge) (simp add: min_sized_def)

lemma emit_last_well_sized: "min_sized chunks \<Longrightarrow> well_sized (emit_last chunks seg)"
proof (cases "seg \<noteq> [] \<and> \<not> MIN_CHUNK_SIZE \<le> length seg \<and> chunks = []")
  case True
  then show ?thesis by (simp add: emit_last_def well_sized_def)
next
  case False
  assume "min_sized chunks"
  with False have "min_sized (emit_last chunks seg)"
    by (auto simp: emit_last_def min_sized_merge) (auto simp: min_sized_def)
  then show ?thesis by (rule min_sized_well)
qed

lemma split_loop_well_sized:
  "min_sized chunks \<Longrightarrow> well_sized (split_loop tx start chunks)"
proof (induction tx start chunks rule: split_loop.induct)
  case (1 tx start chunks)
  show ?case
  proof (cases "start < int (length tx)")
    case False
    then show ?thesis using 1(2) by (simp add: split_loop.simps min_sized_well)
  next
    case lt: True
    show ?thesis
    proof (cases "int (length tx) \<le> start + CHUNK_SIZE")
      case True
      with lt show ?thesis using 1(2)
        by (simp add: split_loop.simps[of tx start chunks] emit_last_well_sized)
    next
      case False
      have "well_sized (split_loop tx (next_start (find_cut tx start))
              (emit_mid chunks (strip (py_slice tx start (find_cut tx start)))))"
        using lt False 1(2) by (intro "1.IH") (simp_all add: emit_mid_min_sized)
      with lt False show ?thesis
        by (simp add: split_loop.simps[of tx start chunks] Let_def)
    qed
  qed
qed

lemma split_text_well_sized: "well_sized (split_text tx)"
proof (cases "tx = [] \<or> int (length tx) \<le> CHUNK_SIZE")
  case True
  then show ?thesis
    by (auto simp: split_text_def split_into_chunks_def well_sized_def)
next
  case False
  have "well_sized (split_loop tx 0 [])"
    by (rule split_loop_well_sized) (simp add: min_sized_def)
  moreover have "well_sized [tx]" using False by (simp add: well_sized_def)
  ultimately show ?thesis using False
    by (simp add: split_text_def split_into_chunks_def Let_def)
qed

lemma window_segment_size:
  "int (length (strip (py_slice tx start (find_cut tx start)))) \<le> CHUNK_SIZE"
proof -
  have "start \<le> find_cut tx start" using find_cut_lower[of start tx] by simp
  then have "length (py_slice tx start (find_cut tx start)) \<le> nat (find_cut tx start - start)"
    by (rule length_py_slice)
  also have "\<dots> \<le> 400" using find_cut_upper[of tx start] by simp
  finally show ?thesis using length_strip[of "py_slice tx start (find_cut tx start)"]
    by (simp add: CHUNK_SIZE_def)
qed

lemma last_segment_size:
  assumes "0 \<le> start" and "int (length tx) \<le> start + CHUNK_SIZE"
  shows "int (length (strip (py_slice_from tx start))) \<le> CHUNK_SIZE"
proof -
  have "int (length (py_slice_from tx start)) \<le> 400"
    using assms by (auto simp: py_slice_from_def slice_bound_def CHUNK_SIZE_def)
  then show ?thesis using length_strip[of "py_slice_from tx start"]
    by (simp add: CHUNK_SIZE_def)
qed

subsection \<open>Claims about the chunker\<close>




text \<open>
  A short first segment is lost.  Inside the loop a segment shorter than
  \<open>MIN_CHUNK_SIZE\<close> is merged into the previous chunk; when there is none yet it is
  not stored at all, unlike in the branch for the end of the text.  Ten letters, 390
  blanks and 200 letters give one chunk, without the ten letters.
\<close>

lemma cut_runs_c:
  "find_cut (replicate 10 97 @ replicate 390 32 @ replicate 200 98) 0 = 400"
proof -
  let ?T = "replicate 10 97 @ replicate 390 32 @ replicate 200 (98::nat)"
  have r1: "py_slice ?T 320 400 = replicate 80 32"
    by (simp add: py_slice_def slice_bound_def)
  have r2: "py_slice ?T 360 400 = replicate 40 32"
    by (simp add: py_slice_def slice_bound_def)
  have 1: "last_match_end is_sentence_end (replicate 80 32) = None"
    by (rule last_match_end_none) (simp add: is_sentence_end_def)
  have 2: "last_match_end is_soft_break (replicate 40 32) = Some 40"
    by (rule last_match_end_replicate) (simp_all add: is_soft_break_def is_space_def)
  show ?thesis
    by (simp add: find_cut_def CHUNK_SIZE_def r1 r2 1 2)
qed

lemma split_text_loses_short_first_segment:
  "split_text (replicate 10 97 @ replicate 390 32 @ replicate 200 98) = [replicate 200 98]"
proof -
  let ?T = "replicate 10 97 @ replicate 390 32 @ replicate 200 (98::nat)"
  have s1: "strip (py_slice ?T 0 400) = replicate 10 97"
    using strip_pad[of "replicate 10 97" "[]" "replicate 390 32"]
    by (simp add: py_slice_def slice_bound_def is_space_def)
  have s2: "strip (py_slice_from ?T 300) = replicate 200 98"
    using strip_pad[of "replicate 200 98" "replicate 100 32" "[]"]
    by (simp add: py_slice_from_def slice_bound_def is_space_def)
  have "split_loop ?T 0 [] = split_loop ?T 300 []"
    by (subst split_loop.simps)
      (simp add: cut_runs_c s1 next_start_eq CHUNK_SIZE_def emit_mid_def MIN_CHUNK_SIZE_def)
  also have "\<dots> = [replicate 200 98]"
    by (subst split_loop.simps)
      (simp add: s2 CHUNK_SIZE_def emit_last_def MIN_CHUNK_SIZE_def)
  finally show ?thesis
    by (simp add: split_text_def split_into_chunks_def CHUNK_SIZE_def)
qed

text \<open>
  C8.  The chunking loop terminates on every text, from every start position and with
  any chunks collected so far: every state is in the domain of the loop.  Each iteration
  that continues moves the start strictly forward, to the cut position minus the
  overlap.
\<close>

theorem chunk_loop_terminates:
  "split_loop_dom (tx, start, chunks) \<and>
   start < next_start (find_cut tx start) \<and>
   next_start (find_cut tx start) = find_cut tx start - CHUNK_OVERLAP"
proof -
  have "All split_loop_dom"
  proof (rule "split_loop.termination"[of "measure (\<lambda>(t, s, c). nat (int (length t) - s))"])
    show "wf (measure (\<lambda>(t, s, c). nat (int (length t) - s)))" by simp
  next
    fix t :: ustring and s :: int and c :: "ustring list" and x :: int
    assume "s < int (length t)" and "x = find_cut t s"
    then show "((t, next_start x, emit_mid c (strip (py_slice t s x))), (t, s, c))
               \<in> measure (\<lambda>(t, s, c). nat (int (length t) - s))"
      using next_start_advances[of s t] by simp
  qed
  then have "split_loop_dom (tx, start, chunks)" by blast
  moreover have "start < next_start (find_cut tx start)"
    using next_start_advances[of start tx] by simp
  moreover have "next_start (find_cut tx start) = find_cut tx start - CHUNK_OVERLAP"
    by (simp add: next_start_eq CHUNK_OVERLAP_def)
  ultimately show ?thesis by blast
qed

theorem chunk_loop_terminates_witness:
  "split_loop_dom (replicate 300 97 @ replicate 150 32 @ replicate 200 98, 0, []) \<and>
   (0::int) < next_start (find_cut (replicate 300 97 @ replicate 150 32 @ replicate 200 98) 0) \<and>
   next_start (find_cut (replicate 300 97 @ replicate 150 32 @ replicate 200 98) 0) = 300"
  using chunk_loop_terminates[of "replicate 300 97 @ replicate 150 32 @ replicate 200 98" 0 "[]"]
  by (simp add: cut_runs_a CHUNK_OVERLAP_def)

text \<open>
  C2, as the code has it.  The claim bounds every chunk by the window of 400
  characters; the loop appends a segment shorter than \<open>MIN_CHUNK_SIZE\<close> to the
  previous chunk, which can then be longer than the window
  (the counterexample below).  What holds: every chunk is non-empty and
  none is shorter than \<open>MIN_CHUNK_SIZE\<close> unless it is the only one; a text of at most
  400 characters comes back within 400; and every segment the loop cuts, inside the
  text or at its end, has at most 400 characters before it is merged.
\<close>

theorem split_text_chunk_sizes:
  "(\<forall>c\<in>set (split_text tx).
      c \<noteq> [] \<and> (length (split_text tx) \<noteq> 1 \<longrightarrow> MIN_CHUNK_SIZE \<le> length c)) \<and>
   (int (length tx) \<le> CHUNK_SIZE \<longrightarrow> (\<forall>c\<in>set (split_text tx). int (length c) \<le> CHUNK_SIZE)) \<and>
   int (length (strip (py_slice tx start (find_cut tx start)))) \<le> CHUNK_SIZE \<and>
   (0 \<le> start \<longrightarrow> int (length tx) \<le> start + CHUNK_SIZE \<longrightarrow>
      int (length (strip (py_slice_from tx start))) \<le> CHUNK_SIZE)"
proof -
  have 1: "\<forall>c\<in>set (split_text tx).
      c \<noteq> [] \<and> (length (split_text tx) \<noteq> 1 \<longrightarrow> MIN_CHUNK_SIZE \<le> length c)"
    using split_text_well_sized[of tx] by (simp add: well_sized_def)
  have 2: "\<forall>c\<in>set (split_text tx). int (length c) \<le> CHUNK_SIZE"
    if "int (length tx) \<le> CHUNK_SIZE"
    using that by (auto simp: split_text_def split_into_chunks_def)
  show ?thesis
    using 1 2 window_segment_size[of tx start] last_segment_size[of start tx] by blast
qed

theorem split_text_chunk_sizes_witness:
  "replicate 300 97 \<in> set (split_text (replicate 300 97 @ replicate 150 32 @ replicate 200 98)) \<and>
   replicate 300 (97::nat) \<noteq> [] \<and>
   length (split_text (replicate 300 97 @ replicate 150 32 @ replicate 200 98)) \<noteq> 1 \<and>
   MIN_CHUNK_SIZE \<le> length (replicate 300 (97::nat)) \<and>
   int (length [97::nat]) \<le> CHUNK_SIZE \<and>
   [97] \<in> set (split_text [97]) \<and>
   int (length (strip (py_slice (replicate 300 97 @ replicate 150 32 @ replicate 200 98) 0
      (find_cut (replicate 300 97 @ replicate 150 32 @ replicate 200 98) 0)))) \<le> CHUNK_SIZE \<and>
   (0::int) \<le> 300 \<and>
   int (length (replicate 300 97 @ replicate 150 32 @ replicate 200 (98::nat))) \<le> 300 + CHUNK_SIZE \<and>
   int (length (strip (py_slice_from (replicate 300 97 @ replicate 150 32 @ replicate 200 98) 300)))
     \<le> CHUNK_SIZE"
proof -
  let ?T = "replicate 300 97 @ replicate 150 32 @ replicate 200 (98::nat)"
  have a: "replicate 300 97 \<in> set (split_text ?T)" by (simp add: split_runs_a)
  have b: "length (split_text ?T) \<noteq> 1" by (simp add: split_runs_a)
  have c: "int (length [97::nat]) \<le> CHUNK_SIZE" by (simp add: CHUNK_SIZE_def)
  have d: "[97] \<in> set (split_text [97])"
    by (simp add: split_text_def split_into_chunks_def CHUNK_SIZE_def)
  have e: "int (length ?T) \<le> 300 + CHUNK_SIZE" by (simp add: CHUNK_SIZE_def)
  from split_text_chunk_sizes[of ?T 0] a b
  have f: "replicate 300 (97::nat) \<noteq> []" "MIN_CHUNK_SIZE \<le> length (replicate 300 (97::nat))"
    "int (length (strip (py_slice ?T 0 (find_cut ?T 0)))) \<le> CHUNK_SIZE" by blast+
  from split_text_chunk_sizes[of ?T 300] e
  have g: "int (length (strip (py_slice_from ?T 300))) \<le> CHUNK_SIZE" by simp
  from a b c d e f g show ?thesis by simp
qed

text \<open>
  C2 as stated fails: 300 letters, 60 blanks, 40 letters and a blank (401 characters)
  give one chunk of 441 characters, the first window of 400 with the 40 letters of the
  remainder appended.
\<close>

theorem split_text_chunk_exceeds_window:
  "split_text (replicate 300 97 @ replicate 60 32 @ replicate 40 97 @ [32])
     = [replicate 300 97 @ replicate 60 32 @ replicate 40 97 @ [32] @ replicate 40 97] \<and>
   CHUNK_SIZE < int (length (replicate 300 97 @ replicate 60 32 @ replicate 40 97 @ [32]
     @ replicate 40 (97::nat)))"
  by (simp add: split_runs_b CHUNK_SIZE_def)

section \<open>The index adapter (\<open>vector_store.search\<close>)\<close>

text \<open>
  Similarities and distances are Python floats.  They are modelled as exact rationals:
  the rounding error of binary floating point is outside the model, the order and the
  rounding to four decimals are inside it.
\<close>

text \<open>Rounding to the nearest integer, ties to even, as \<open>round\<close> does.\<close>

definition round_half_even :: "rat \<Rightarrow> int" where
  "round_half_even x =
     (let f = \<lfloor>x\<rfloor>; r = x - of_int f
      in if r < 1 / 2 then f else if 1 / 2 < r then f + 1 else if even f then f else f + 1)"

text \<open>\<open>round(x, ndigits)\<close>\<close>

definition py_round :: "rat \<Rightarrow> nat \<Rightarrow> rat" where
  "py_round x ndigits = of_int (round_half_even (x * 10 ^ ndigits)) / 10 ^ ndigits"

text \<open>The metadata stored with a chunk, as \<open>add_page\<close> writes it; \<open>favicon\<close> is read
  with a default.\<close>

record chunk_meta =
  meta_url :: string
  meta_title :: ustring
  meta_tab_id :: int
  meta_favicon :: "ustring option"

text \<open>A result dictionary.  The keys \<open>text\<close>, \<open>rerank_score\<close> and \<open>final_score\<close> are
  present only after the step that sets them.\<close>

record doc =
  url :: string
  title :: ustring
  tab_id :: int
  favicon :: ustring
  score :: rat
  text_of :: "ustring option"
  rerank_score :: "rat option"
  final_score :: "rat option"

text \<open>What \<open>col.query\<close> returns for the one query embedding: parallel lists.\<close>

record query_result =
  metadatas :: "chunk_meta list"
  distances :: "rat list"
  documents :: "ustring list"

text \<open>The collection: its size, and its nearest-neighbour query as a function of the
  query embedding and \<open>n_results\<close>; \<open>None\<close> when the index raises.\<close>

record collection =
  col_count :: nat
  col_query :: "rat list \<Rightarrow> int \<Rightarrow> query_result option"

text \<open>\<open>sorted(xs, key=f, reverse=True)\<close>: descending, equal keys in their first order.\<close>

definition sorted_desc :: "('a \<Rightarrow> 'k::linorder) \<Rightarrow> 'a list \<Rightarrow> 'a list" where
  "sorted_desc f xs = rev (sort_key f (rev xs))"

text \<open>The loop over \<open>enumerate(zip(metadatas, distances))\<close>; \<open>seen\<close> is the
  insertion-ordered dictionary \<open>seen_urls\<close>.\<close>

fun dedup_loop ::
  "bool \<Rightarrow> ustring list \<Rightarrow> (string \<times> doc) list \<Rightarrow> (nat \<times> chunk_meta \<times> rat) list
     \<Rightarrow> (string \<times> doc) list" where
  "dedup_loop include_text docs seen [] = seen"
| "dedup_loop include_text docs seen ((i, meta, distance) # rest) =
     (let u = meta_url meta; sc = py_round (1 - distance) 4 in
      if (case map_of seen u of None \<Rightarrow> True | Some it \<Rightarrow> score it < sc) then
        (let item = \<lparr> url = u, title = meta_title meta, tab_id = meta_tab_id meta,
                favicon = (case meta_favicon meta of None \<Rightarrow> [] | Some f \<Rightarrow> f),
                score = sc,
                text_of = (if include_text \<and> i < length docs then Some (docs ! i) else None),
                rerank_score = None, final_score = None \<rparr>
         in dedup_loop include_text docs (AList.update u item seen) rest)
      else dedup_loop include_text docs seen rest)"

definition search :: "collection \<Rightarrow> rat list \<Rightarrow> int \<Rightarrow> bool \<Rightarrow> doc list option" where
  "search col query_embedding top_k include_text =
     (if col_count col = 0 then Some []
      else
        (let fetch_k = min (top_k * 5) (int (col_count col)) in
         case col_query col query_embedding fetch_k of
           None \<Rightarrow> None
         | Some results \<Rightarrow>
             (let docs = (if include_text then documents results else []);
                  seen_urls = dedup_loop include_text docs []
                     (enumerate 0 (zip (metadatas results) (distances results)));
                  items = sorted_desc score (map snd seen_urls)
              in Some (py_slice items 0 top_k))))"


text \<open>The candidates \<open>search\<close> looks at: the pairs of \<open>zip(metadatas, distances)\<close> of
  the query it issues.\<close>

definition fetched :: "collection \<Rightarrow> rat list \<Rightarrow> int \<Rightarrow> (chunk_meta \<times> rat) list" where
  "fetched col query_embedding top_k =
     (if col_count col = 0 then []
      else case col_query col query_embedding (min (top_k * 5) (int (col_count col))) of
             None \<Rightarrow> []
           | Some results \<Rightarrow> zip (metadatas results) (distances results))"

definition seen_inv :: "(string \<times> doc) list \<Rightarrow> (nat \<times> chunk_meta \<times> rat) list \<Rightarrow> bool" where
  "seen_inv seen cs \<longleftrightarrow>
     distinct (map fst seen) \<and>
     (\<forall>u it. map_of seen u = Some it \<longrightarrow>
        url it = u \<and> (\<exists>(i, m, d)\<in>set cs. meta_url m = u \<and> score it = py_round (1 - d) 4)) \<and>
     (\<forall>(i, m, d)\<in>set cs. \<exists>it. map_of seen (meta_url m) = Some it \<and> py_round (1 - d) 4 \<le> score it)"

lemma seen_inv_step:
  assumes inv: "seen_inv seen cs"
  shows "dedup_loop inc docs seen [(i, m, d)] = seen' \<Longrightarrow> seen_inv seen' (cs @ [(i, m, d)])"
proof -
  assume r: "dedup_loop inc docs seen [(i, m, d)] = seen'"
  define sc where "sc = py_round (1 - d) 4"
  define u where "u = meta_url m"
  from inv have d: "distinct (map fst seen)"
    and i2: "\<And>v it. map_of seen v = Some it \<Longrightarrow>
        url it = v \<and> (\<exists>(i, m, d)\<in>set cs. meta_url m = v \<and> score it = py_round (1 - d) 4)"
    and i3: "\<And>j n e. (j, n, e) \<in> set cs \<Longrightarrow>
        \<exists>it. map_of seen (meta_url n) = Some it \<and> py_round (1 - e) 4 \<le> score it"
    unfolding seen_inv_def by blast+
  show ?thesis
  proof (cases "case map_of seen u of None \<Rightarrow> True | Some it \<Rightarrow> score it < sc")
    case True
    define item where "item = \<lparr> url = meta_url m, title = meta_title m, tab_id = meta_tab_id m,
        favicon = (case meta_favicon m of None \<Rightarrow> [] | Some f \<Rightarrow> f),
        score = py_round (1 - d) 4,
        text_of = (if inc \<and> i < length docs then Some (docs ! i) else None),
        rerank_score = None, final_score = None \<rparr>"
    have item: "seen' = AList.update u item seen" "url item = u" "score item = sc"
      using r True unfolding u_def sc_def item_def by (simp_all add: Let_def)
    have m: "map_of seen' = (map_of seen)(u \<mapsto> item)" by (simp add: item(1) update_conv')
    have 1: "distinct (map fst seen')" using d by (simp add: item(1) distinct_update)
    have 2: "url it = v \<and> (\<exists>(i, m, d)\<in>set (cs @ [(i, m, d)]). meta_url m = v \<and> score it = py_round (1 - d) 4)"
      if "map_of seen' v = Some it" for v it
    proof (cases "v = u")
      case True
      with that m have "it = item" by simp
      then show ?thesis using item True by (auto simp: u_def sc_def)
    next
      case False
      with that m have "map_of seen v = Some it" by simp
      from i2[OF this] show ?thesis by auto
    qed
    have 3: "\<exists>it. map_of seen' (meta_url n) = Some it \<and> py_round (1 - e) 4 \<le> score it"
      if "(j, n, e) \<in> set (cs @ [(i, m, d)])" for j n e
    proof (cases "(j, n, e) \<in> set cs")
      case old: True
      from i3[OF this] obtain it where it: "map_of seen (meta_url n) = Some it"
        "py_round (1 - e) 4 \<le> score it" by blast
      show ?thesis
      proof (cases "meta_url n = u")
        case True
        with it(1) \<open>case map_of seen u of None \<Rightarrow> True | Some it \<Rightarrow> score it < sc\<close>
        have "score it < sc" by simp
        with it(2) True m item show ?thesis by simp
      next
        case False
        with it m show ?thesis by simp
      qed
    next
      case False
      with that have "n = m" "e = d" by auto
      then show ?thesis using m item by (simp add: u_def sc_def)
    qed
    from 1 2 3 show ?thesis unfolding seen_inv_def by blast
  next
    case False
    then have eq: "seen' = seen" using r unfolding u_def sc_def by (simp add: Let_def)
    from False obtain it0 where it0: "map_of seen u = Some it0" "sc \<le> score it0"
      by (cases "map_of seen u") auto
    have 2: "url it = v \<and> (\<exists>(i, m, d)\<in>set (cs @ [(i, m, d)]). meta_url m = v \<and> score it = py_round (1 - d) 4)"
      if "map_of seen v = Some it" for v it
      using i2[OF that] by auto
    have 3: "\<exists>it. map_of seen (meta_url n) = Some it \<and> py_round (1 - e) 4 \<le> score it"
      if "(j, n, e) \<in> set (cs @ [(i, m, d)])" for j n e
    proof (cases "(j, n, e) \<in> set cs")
      case True
      from i3[OF this] show ?thesis .
    next
      case False
      with that have "n = m" "e = d" by auto
      then show ?thesis using it0 by (simp add: u_def sc_def)
    qed
    from d 2 3 show ?thesis unfolding seen_inv_def eq by blast
  qed
qed

lemma dedup_loop_Cons:
  "dedup_loop inc docs seen (c # rest) = dedup_loop inc docs (dedup_loop inc docs seen [c]) rest"
  by (cases c) (simp add: Let_def)

lemma dedup_loop_inv:
  "seen_inv seen cs \<Longrightarrow> seen_inv (dedup_loop inc docs seen rest) (cs @ rest)"
proof (induction rest arbitrary: seen cs)
  case Nil
  then show ?case by simp
next
  case (Cons c rest)
  obtain i m d where c: "c = (i, m, d)" by (cases c)
  have "seen_inv (dedup_loop inc docs seen [c]) (cs @ [c])"
    using seen_inv_step[OF Cons.prems, of inc docs i m d] by (simp add: c)
  from Cons.IH[OF this] show ?case
    by (subst dedup_loop_Cons) simp
qed

lemma sorted_desc_set: "set (sorted_desc f xs) = set xs"
  by (simp add: sorted_desc_def)

lemma sorted_desc_distinct_map:
  "distinct (map g xs) \<Longrightarrow> distinct (map g (sorted_desc f xs))"
  by (simp add: sorted_desc_def distinct_map)

lemma sorted_desc_sorted: "sorted_wrt (\<lambda>a b. b \<le> a) (map f (sorted_desc f xs))"
proof -
  have "sorted (map f (sort_key f (rev xs)))" by (rule sorted_sort_key)
  then have "sorted_wrt (\<lambda>a b. b \<le> a) (rev (map f (sort_key f (rev xs))))"
    by (simp add: sorted_wrt_rev)
  then show ?thesis by (simp add: sorted_desc_def rev_map)
qed

lemma py_slice_prefix: "\<exists>n. py_slice xs 0 k = take n xs \<and> (0 \<le> k \<longrightarrow> int n \<le> k)"
  by (rule exI[of _ "slice_bound (length xs) k"])
    (auto simp: py_slice_def slice_bound_def)


lemma in_enumerate_zip:
  "(m, d) \<in> set xs \<longleftrightarrow> (\<exists>i. (i, m, d) \<in> set (enumerate 0 xs))"
proof -
  have "set xs = snd ` set (enumerate 0 xs)"
    by (metis map_snd_enumerate set_map)
  then show ?thesis by force
qed

text \<open>
  C3.  Whatever the index returns for the query, a result list of \<open>search\<close> has at most
  \<open>top_k\<close> entries, no URL twice, scores in descending order, and each entry carries
  the largest \<open>round(1 - distance, 4)\<close> among the fetched chunks of its URL.  The bound
  on the length is for a \<open>top_k\<close> that is not negative; it holds for every \<open>top_k\<close> when
  the index rejects a request for no or a negative number of results.
\<close>

theorem search_dedup_sorted:
  assumes "search col q top_k inc = Some rs"
  shows "(0 \<le> top_k \<longrightarrow> int (length rs) \<le> top_k) \<and>
         ((\<forall>n\<le>0. col_query col q n = None) \<longrightarrow> length rs \<le> nat top_k) \<and>
         distinct (map url rs) \<and>
         sorted_wrt (\<lambda>a b. b \<le> a) (map score rs) \<and>
         (\<forall>r\<in>set rs.
            (\<exists>(m, d)\<in>set (fetched col q top_k). meta_url m = url r \<and> score r = py_round (1 - d) 4) \<and>
            (\<forall>(m, d)\<in>set (fetched col q top_k). meta_url m = url r \<longrightarrow> py_round (1 - d) 4 \<le> score r))"
proof (cases "col_count col = 0")
  case True
  with assms have "rs = []" by (simp add: search_def)
  then show ?thesis by simp
next
  case False
  with assms obtain res where res: "col_query col q (min (top_k * 5) (int (col_count col))) = Some res"
    by (auto simp: search_def Let_def split: option.splits)
  define cands where "cands = enumerate 0 (zip (metadatas res) (distances res))"
  define seen where "seen = dedup_loop inc (if inc then documents res else []) [] cands"
  define items where "items = sorted_desc score (map snd seen)"
  have rs: "rs = py_slice items 0 top_k"
    using assms False res by (simp add: search_def Let_def items_def seen_def cands_def)
  from py_slice_prefix[of items top_k] obtain n where n: "rs = take n items"
    "0 \<le> top_k \<longrightarrow> int n \<le> top_k" unfolding rs by blast
  have f: "fetched col q top_k = zip (metadatas res) (distances res)"
    using False res by (simp add: fetched_def)
  have "seen_inv [] []" by (simp add: seen_inv_def)
  from dedup_loop_inv[OF this, of inc "if inc then documents res else []" cands]
  have inv: "seen_inv seen cands" by (simp add: seen_def)
  then have d: "distinct (map fst seen)"
    and i2: "\<And>v it. map_of seen v = Some it \<Longrightarrow>
        url it = v \<and> (\<exists>(i, m, d)\<in>set cands. meta_url m = v \<and> score it = py_round (1 - d) 4)"
    and i3: "\<And>j n e. (j, n, e) \<in> set cands \<Longrightarrow>
        \<exists>it. map_of seen (meta_url n) = Some it \<and> py_round (1 - e) 4 \<le> score it"
    unfolding seen_inv_def by blast+
  have key: "url it = v" if "(v, it) \<in> set seen" for v it
    using i2[of v it] that d by simp
  have "map (url \<circ> snd) seen = map fst seen"
    using key by auto
  with d have "distinct (map url (map snd seen))" by (simp only: map_map)
  then have di: "distinct (map url items)"
    unfolding items_def by (rule sorted_desc_distinct_map)
  have 1: "0 \<le> top_k \<longrightarrow> int (length rs) \<le> top_k" using n by auto
  have 2: "distinct (map url rs)" using di by (simp add: n(1) take_map[symmetric])
  have "sorted_wrt (\<lambda>a b. b \<le> a) (map score items)"
    unfolding items_def by (rule sorted_desc_sorted)
  then have 3: "sorted_wrt (\<lambda>a b. b \<le> a) (map score rs)"
    by (simp add: n(1) take_map[symmetric] sorted_wrt_take)
  have 4: "(\<exists>(m, d)\<in>set (fetched col q top_k). meta_url m = url r \<and> score r = py_round (1 - d) 4) \<and>
           (\<forall>(m, d)\<in>set (fetched col q top_k). meta_url m = url r \<longrightarrow> py_round (1 - d) 4 \<le> score r)"
    if "r \<in> set rs" for r
  proof -
    from that have "r \<in> set items" unfolding n(1) by (rule in_set_takeD)
    then obtain v where v: "(v, r) \<in> set seen"
      by (auto simp: items_def sorted_desc_set)
    with d have mo: "map_of seen v = Some r" by simp
    from i2[OF mo] have u: "url r = v"
      and ex: "\<exists>(i, m, d)\<in>set cands. meta_url m = v \<and> score r = py_round (1 - d) 4" by blast+
    from ex obtain i m e where "(i, m, e) \<in> set cands" "meta_url m = v"
      "score r = py_round (1 - e) 4" by blast
    then have a: "\<exists>(m, d)\<in>set (fetched col q top_k). meta_url m = url r \<and> score r = py_round (1 - d) 4"
      unfolding f u cands_def using in_enumerate_zip[of m e "zip (metadatas res) (distances res)"]
      by blast
    have b: "py_round (1 - e) 4 \<le> score r"
      if "(m, e) \<in> set (fetched col q top_k)" "meta_url m = url r" for m e
    proof -
      from that(1) obtain j where "(j, m, e) \<in> set cands"
        unfolding f cands_def using in_enumerate_zip[of m e "zip (metadatas res) (distances res)"]
        by blast
      from i3[OF this] that(2) mo u show ?thesis by simp
    qed
    from a b show ?thesis by blast
  qed
  have 5: "length rs \<le> nat top_k" if "\<forall>n\<le>0. col_query col q n = None"
  proof (cases "0 \<le> top_k")
    case True
    with 1 show ?thesis by simp
  next
    case False
    then have "min (top_k * 5) (int (col_count col)) \<le> 0" by simp
    with that res show ?thesis by simp
  qed
  from 1 2 3 4 5 show ?thesis by blast
qed


text \<open>Example data: an index of three chunks, two of page \<open>a\<close> and one of page \<open>b\<close>;
  it rejects a request for no or a negative number of results.\<close>

definition demo_collection :: collection where
  "demo_collection =
     \<lparr> col_count = 3,
       col_query = (\<lambda>q n. if n \<le> 0 then None else Some
         \<lparr> metadatas = take (nat n)
             [\<lparr> meta_url = ''a'', meta_title = [65], meta_tab_id = 1, meta_favicon = None \<rparr>,
              \<lparr> meta_url = ''b'', meta_title = [66], meta_tab_id = 2, meta_favicon = None \<rparr>,
              \<lparr> meta_url = ''a'', meta_title = [65], meta_tab_id = 1, meta_favicon = None \<rparr>],
           distances = take (nat n) [1 / 2, 1 / 4, 1 / 8],
           documents = take (nat n) [[120], [121], [122]] \<rparr>) \<rparr>"

lemma demo_search:
  "search demo_collection [] 2 False =
     Some [\<lparr> url = ''a'', title = [65], tab_id = 1, favicon = [], score = 7 / 8,
              text_of = None, rerank_score = None, final_score = None \<rparr>,
           \<lparr> url = ''b'', title = [66], tab_id = 2, favicon = [], score = 3 / 4,
              text_of = None, rerank_score = None, final_score = None \<rparr>]"
  by code_simp

theorem search_dedup_sorted_witness:
  "search demo_collection [] 2 False =
     Some [\<lparr> url = ''a'', title = [65], tab_id = 1, favicon = [], score = 7 / 8,
              text_of = None, rerank_score = None, final_score = None \<rparr>,
           \<lparr> url = ''b'', title = [66], tab_id = 2, favicon = [], score = 3 / 4,
              text_of = None, rerank_score = None, final_score = None \<rparr>] \<and>
   (0::int) \<le> 2 \<and>
   int (length [\<lparr> url = ''a'', title = [65], tab_id = 1, favicon = [], score = 7 / 8,
              text_of = None, rerank_score = None, final_score = None \<rparr>,
           \<lparr> url = ''b'', title = [66], tab_id = 2, favicon = [], score = 3 / 4,
              text_of = None, rerank_score = None, final_score = None \<rparr>]) \<le> 2 \<and>
   py_round (1 - 1 / 8) 4 = 7 / 8 \<and> py_round (1 - 1 / 2) 4 \<le> 7 / 8"
proof -
  note r = search_dedup_sorted[OF demo_search]
  have "py_round (1 - 1 / 8) 4 = 7 / 8" "py_round (1 - 1 / 2) 4 \<le> 7 / 8" by code_simp+
  with r demo_search show ?thesis by simp
qed

section \<open>The heuristic reranker (\<open>reranker_service.rerank_by_heuristics\<close>)\<close>

text \<open>
  \<open>str.lower\<close>, the class \<open>\w\<close> and the class \<open>\d\<close> are tables of the Unicode database,
  which is not part of the repository: they are parameters of the model.
\<close>

record unicode =
  lower :: "ustring \<Rightarrow> ustring"
  is_word :: "nat \<Rightarrow> bool"
  is_decimal :: "nat \<Rightarrow> bool"

text \<open>\<open>s.split(sep)\<close> for a separator of one character.\<close>

fun split_on :: "nat \<Rightarrow> ustring \<Rightarrow> ustring list" where
  "split_on sep [] = [[]]"
| "split_on sep (c # cs) =
     (if c = sep then [] # split_on sep cs
      else (case split_on sep cs of l # ls \<Rightarrow> (c # l) # ls | [] \<Rightarrow> [[c]]))"

text \<open>\<open>re.findall(r"\w+", s)\<close>: the maximal runs of word characters, \<open>cur\<close> being the
  run that is open.\<close>

fun findall_words :: "(nat \<Rightarrow> bool) \<Rightarrow> ustring \<Rightarrow> ustring \<Rightarrow> ustring list" where
  "findall_words w cur [] = (if cur = [] then [] else [cur])"
| "findall_words w cur (c # cs) =
     (if w c then findall_words w (cur @ [c]) cs
      else (if cur = [] then [] else [cur]) @ findall_words w [] cs)"

text \<open>\<open>\d+\.\<close> at the start of a line.\<close>

fun digits_dot :: "(nat \<Rightarrow> bool) \<Rightarrow> ustring \<Rightarrow> bool" where
  "digits_dot dec [] = False"
| "digits_dot dec (c # cs) =
     (dec c \<and> (case cs of [] \<Rightarrow> False | d # _ \<Rightarrow> d = 46 \<or> digits_dot dec cs))"

text \<open>\<open>list_pattern.match(l)\<close> for \<open>^(\d+\.|-|\<bullet>|\*|\[)\<close>: numbering, hyphen, bullet
  (U+2022), asterisk or opening bracket at the start.\<close>

definition list_pattern_match :: "(nat \<Rightarrow> bool) \<Rightarrow> ustring \<Rightarrow> bool" where
  "list_pattern_match dec l \<longleftrightarrow>
     digits_dot dec l \<or> (case l of [] \<Rightarrow> False | c # _ \<Rightarrow> c = 45 \<or> c = 8226 \<or> c = 42 \<or> c = 91)"

text \<open>\<open>doc.get("text", "") or doc.get("title", "")\<close>\<close>

definition doc_text :: "doc \<Rightarrow> ustring" where
  "doc_text d = (case text_of d of None \<Rightarrow> title d | Some t \<Rightarrow> if t \<noteq> [] then t else title d)"

text \<open>\<open>x.get("final_score", 0)\<close>, the sort key.\<close>

definition final_score_or_0 :: "doc \<Rightarrow> rat" where
  "final_score_or_0 x = (case final_score x of None \<Rightarrow> 0 | Some f \<Rightarrow> f)"

text \<open>The body of the loop over the documents.  The constants \<open>0.7\<close>, \<open>0.6\<close> and
  \<open>0.05\<close> are the rationals they denote and the products are exact: a score here is
  the real number that the code's double approximates.  Two candidates whose exact
  scores are equal can therefore be a last bit apart in the code, and in either
  order.\<close>

definition score_doc :: "unicode \<Rightarrow> ustring list \<Rightarrow> doc \<Rightarrow> doc" where
  "score_doc U query_terms d =
     (let sc = score d;
          tx = doc_text d;
          text_lower = lower U tx;
          penalty = 1;
          lines0 = split_on 10 (strip tx);
          lines = [strip l. l \<leftarrow> lines0, strip l \<noteq> []];
          penalty =
            (if lines \<noteq> [] then
               (let avg_line_len = of_nat (sum_list (map length lines)) / of_nat (length lines);
                    penalty = (if avg_line_len < (20::rat) then penalty * (7 / 10) else penalty);
                    list_ratio = of_nat (length (filter (list_pattern_match (is_decimal U)) lines))
                                   / of_nat (length lines)
                in if (1 / 2 :: rat) < list_ratio then penalty * (6 / 10) else penalty)
             else penalty);
          term_matches = length (filter (\<lambda>term. sublist term text_lower) query_terms);
          bonus = 1 + of_nat term_matches * (5 / 100)
      in d\<lparr> final_score := Some (sc * penalty * bonus) \<rparr>)"

text \<open>\<open>query_terms\<close> is a set in the source; its elements are listed once each here.\<close>

definition rerank_by_heuristics :: "unicode \<Rightarrow> ustring \<Rightarrow> doc list \<Rightarrow> int \<Rightarrow> doc list" where
  "rerank_by_heuristics U query docs top_k =
     (let query_lower = lower U query;
          query_terms = remdups (findall_words (is_word U) [] query_lower);
          docs = map (score_doc U query_terms) docs;
          reranked = sorted_desc final_score_or_0 docs
      in py_slice reranked 0 top_k)"

text \<open>The ASCII part of the Unicode tables, for examples.\<close>

definition ascii :: unicode where
  "ascii = \<lparr> lower = map (\<lambda>c. if 65 \<le> c \<and> c \<le> 90 then c + 32 else c),
             is_word = (\<lambda>c. (48 \<le> c \<and> c \<le> 57) \<or> (65 \<le> c \<and> c \<le> 90) \<or> (97 \<le> c \<and> c \<le> 122) \<or> c = 95),
             is_decimal = (\<lambda>c. 48 \<le> c \<and> c \<le> 57) \<rparr>"


text \<open>The claim's words, to compare with \<open>score_doc\<close>: the non-empty lines of a text,
  the penalty as a product of its two factors, and the bonus over the distinct query
  terms found in the text.\<close>

definition nonempty_lines :: "ustring \<Rightarrow> ustring list" where
  "nonempty_lines tx = filter (\<lambda>l. l \<noteq> []) (map strip (split_on 10 (strip tx)))"

definition spec_penalty :: "unicode \<Rightarrow> ustring \<Rightarrow> rat" where
  "spec_penalty U tx =
     (let ls = nonempty_lines tx in
        (if ls \<noteq> [] \<and> of_nat (sum_list (map length ls)) / of_nat (length ls) < (20::rat)
         then 7 / 10 else 1) *
        (if ls \<noteq> [] \<and> length ls < 2 * length (filter (list_pattern_match (is_decimal U)) ls)
         then 6 / 10 else 1))"

definition spec_bonus :: "unicode \<Rightarrow> ustring \<Rightarrow> ustring \<Rightarrow> rat" where
  "spec_bonus U query tx =
     1 + (5 / 100) * of_nat (card {t \<in> set (findall_words (is_word U) [] (lower U query)).
                                  sublist t (lower U tx)})"

text \<open>Example data: the ten lines \<open>1. a\<close> to \<open>6. f\<close> and \<open>g\<close> to \<open>j\<close>, separated by
  newlines (code point 10); a query \<open>alpha beta\<close>; a line of prose
  \<open>some long prose about alpha and beta\<close>.\<close>

definition ten_line_list :: ustring where
  "ten_line_list =
     [49, 46, 32, 97, 10, 50, 46, 32, 98, 10, 51, 46, 32, 99, 10, 52, 46, 32, 100, 10, 53, 46, 32, 101, 10, 54, 46, 32, 102, 10, 103, 10, 104, 10, 105, 10, 106]"

definition demo_query :: ustring where
  "demo_query = [97, 108, 112, 104, 97, 32, 98, 101, 116, 97]"

definition demo_prose :: ustring where
  "demo_prose =
     [115, 111, 109, 101, 32, 108, 111, 110, 103, 32, 112, 114, 111, 115, 101, 32, 97, 98, 111, 117, 116, 32, 97, 108, 112, 104, 97, 32, 97, 110, 100, 32, 98, 101, 116, 97]"

definition demo_doc :: "string \<Rightarrow> rat \<Rightarrow> ustring \<Rightarrow> doc" where
  "demo_doc u sc tx = \<lparr> url = u, title = [84], tab_id = 1, favicon = [], score = sc,
      text_of = Some tx, rerank_score = None, final_score = None \<rparr>"

lemma lines_comprehension:
  "[strip l. l \<leftarrow> ls, strip l \<noteq> []] = filter (\<lambda>l. l \<noteq> []) (map strip ls)"
  by (induction ls) auto

lemma count_distinct_terms:
  "length (filter P (remdups ts)) = card {t \<in> set ts. P t}"
proof -
  have "card {t \<in> set ts. P t} = card (set (filter P (remdups ts)))"
    by (rule arg_cong[of _ _ card]) auto
  also have "\<dots> = length (filter P (remdups ts))"
    by (rule distinct_card) simp
  finally show ?thesis by simp
qed

lemma more_than_half:
  "0 < n \<Longrightarrow> (1 / 2 :: rat) < of_nat m / of_nat n \<longleftrightarrow> n < 2 * m"
proof -
  assume n: "0 < n"
  have "(1 / 2 :: rat) < of_nat m / of_nat n \<longleftrightarrow> (of_nat n :: rat) < 2 * of_nat m"
    using n by (simp add: field_simps)
  also have "\<dots> \<longleftrightarrow> (of_nat n :: rat) < of_nat (2 * m)" by simp
  also have "\<dots> \<longleftrightarrow> n < 2 * m" by (simp only: of_nat_less_iff)
  finally show ?thesis .
qed

lemma score_doc_final:
  "final_score (score_doc U (remdups (findall_words (is_word U) [] (lower U query))) d)
     = Some (score d * spec_penalty U (doc_text d) * spec_bonus U query (doc_text d))"
proof -
  define ls where "ls = nonempty_lines (doc_text d)"
  have ls: "[strip l. l \<leftarrow> split_on 10 (strip (doc_text d)), strip l \<noteq> []] = ls"
    by (simp add: ls_def nonempty_lines_def lines_comprehension)
  have half: "ls \<noteq> [] \<Longrightarrow>
      (1 / 2 :: rat) < of_nat (length (filter (list_pattern_match (is_decimal U)) ls)) / of_nat (length ls)
      \<longleftrightarrow> length ls < 2 * length (filter (list_pattern_match (is_decimal U)) ls)"
    by (rule more_than_half) simp
  show ?thesis
    unfolding score_doc_def Let_def ls spec_penalty_def spec_bonus_def ls_def[symmetric]
      count_distinct_terms
    using half by (cases "ls = []") (simp_all add: mult.commute)
qed

lemma score_doc_update:
  "score_doc U (remdups (findall_words (is_word U) [] (lower U query))) d
     = d\<lparr> final_score := Some (score d * spec_penalty U (doc_text d) * spec_bonus U query (doc_text d)) \<rparr>"
proof -
  let ?ts = "remdups (findall_words (is_word U) [] (lower U query))"
  have "score_doc U ?ts d = d\<lparr> final_score := final_score (score_doc U ?ts d) \<rparr>"
    by (simp add: score_doc_def Let_def)
  then show ?thesis by (simp only: score_doc_final)
qed

lemma py_slice_take:
  "py_slice xs 0 k = take (slice_bound (length xs) k) xs"
  by (simp add: py_slice_def slice_bound_def)

lemma strip_ten: "strip ten_line_list = ten_line_list"
  by (rule strip_id) (simp_all add: ten_line_list_def is_space_def)
lemma split_ten: "split_on 10 ten_line_list = [[49,46,32,97],[50,46,32,98],[51,46,32,99],[52,46,32,100],[53,46,32,101],[54,46,32,102],[103],[104],[105],[106]]"
  by (simp add: ten_line_list_def)
lemma lines_ten: "nonempty_lines ten_line_list = [[49,46,32,97],[50,46,32,98],[51,46,32,99],[52,46,32,100],[53,46,32,101],[54,46,32,102],[103],[104],[105],[106]]"
  by (simp add: nonempty_lines_def strip_ten split_ten strip_id is_space_def)
lemma markers_ten: "length (filter (list_pattern_match (is_decimal ascii)) (nonempty_lines ten_line_list)) = 6"
    by (simp add: lines_ten list_pattern_match_def ascii_def)
lemma strip_prose: "strip demo_prose = demo_prose"
  by (rule strip_id) (simp_all add: demo_prose_def is_space_def)
lemma split_prose: "split_on 10 demo_prose = [demo_prose]"
  by (simp add: demo_prose_def)
lemma lines_prose: "nonempty_lines demo_prose = [demo_prose]"
  using strip_prose by (simp add: nonempty_lines_def split_prose) (simp add: demo_prose_def)
lemma penalty_prose: "spec_penalty ascii demo_prose = 1"
  by (simp add: spec_penalty_def lines_prose) (simp add: demo_prose_def list_pattern_match_def ascii_def)
lemma terms_query: "findall_words (is_word ascii) [] (lower ascii demo_query) = [[97,108,112,104,97],[98,101,116,97]]"
  by (simp add: ascii_def demo_query_def)
lemma bonus_prose: "spec_bonus ascii demo_query demo_prose = 11 / 10"
proof -
  have l: "lower ascii demo_prose = demo_prose" by (simp add: ascii_def demo_prose_def)
  have 1: "sublist [97,108,112,104,97] demo_prose"
    unfolding sublist_def demo_prose_def
    by (rule exI[of _ "[115,111,109,101,32,108,111,110,103,32,112,114,111,115,101,32,97,98,111,117,116,32]"],
        rule exI[of _ "[32,97,110,100,32,98,101,116,97]"]) simp
  have 2: "sublist [98,101,116,97] demo_prose"
    unfolding demo_prose_def by (rule suffix_imp_sublist) (simp add: suffix_def)
  have "{t \<in> set [[97,108,112,104,97],[98,101,116,97::nat]]. sublist t demo_prose}
           = {[97,108,112,104,97],[98,101,116,97]}"
    using 1 2 by auto
  then show ?thesis by (simp add: spec_bonus_def terms_query l)
qed
lemma bonus_ten: "spec_bonus ascii demo_query ten_line_list = 1"
proof -
  have l: "lower ascii ten_line_list = ten_line_list" by (simp add: ascii_def ten_line_list_def)
  have n: "\<not> sublist t ten_line_list" if "108 \<in> set t \<or> 116 \<in> set t" for t
  proof
    assume "sublist t ten_line_list"
    then have "set t \<subseteq> set ten_line_list" by (rule set_mono_sublist)
    with that show False by (auto simp: ten_line_list_def)
  qed
  have "{t \<in> set [[97,108,112,104,97],[98,101,116,97::nat]]. sublist t ten_line_list} = {}"
    using n by auto
  then show ?thesis by (simp add: spec_bonus_def terms_query l)
qed
lemma penalty_ten: "spec_penalty ascii ten_line_list = 21 / 50"
  by (simp add: spec_penalty_def lines_ten list_pattern_match_def ascii_def)

lemma doc_text_demo: "tx \<noteq> [] \<Longrightarrow> doc_text (demo_doc u sc tx) = tx"
  by (simp add: doc_text_def demo_doc_def)

lemma sorted_desc_mset: "mset (sorted_desc f xs) = mset xs"
  by (simp add: sorted_desc_def)

lemma sorted_desc_sorted_wrt: "sorted_wrt (\<lambda>a b. f b \<le> f a) (sorted_desc f xs)"
  using sorted_desc_sorted[of f xs] by (simp add: sorted_wrt_map)

text \<open>
  C7.  For every candidate the heuristic reranker stores
  \<open>final_score = score \<times> penalty \<times> bonus\<close>, the penalty being 0.7 for an average
  non-empty line length under 20, times 0.6 when more than half of the non-empty lines
  start with a list marker, and the bonus \<open>1 + 0.05\<close> per distinct query term found
  in the text.  The result is the beginning of the scored candidates arranged by final
  score in descending order, \<open>top_k\<close> of them when \<open>top_k\<close> is not negative and there
  are that many.  Ten non-empty lines of which six carry a marker get the factor 0.6.
  The arrangement is stated up to the order of candidates with equal final scores:
  the products are exact here, and two candidates whose exact scores are equal can differ
  in the last bit of the code's doubles (\<open>0.8 \<times> 0.7\<close> against \<open>0.56\<close>), so which of
  them comes first is not fixed by the exact scores.
\<close>

theorem heuristic_rerank_scores:
  "final_score (score_doc U (remdups (findall_words (is_word U) [] (lower U query))) d)
     = Some (score d * spec_penalty U (doc_text d) * spec_bonus U query (doc_text d)) \<and>
   (\<exists>ys n. mset ys = mset (map (\<lambda>d. d\<lparr> final_score :=
               Some (score d * spec_penalty U (doc_text d) * spec_bonus U query (doc_text d)) \<rparr>) docs) \<and>
        sorted_wrt (\<lambda>a b. final_score_or_0 b \<le> final_score_or_0 a) ys \<and>
        rerank_by_heuristics U query docs top_k = take n ys \<and>
        (0 \<le> top_k \<longrightarrow> n = min (nat top_k) (length docs))) \<and>
   sorted_wrt (\<lambda>a b. b \<le> a) (map final_score_or_0 (rerank_by_heuristics U query docs top_k)) \<and>
   (length (nonempty_lines tx) = 10 \<and>
    length (filter (list_pattern_match (is_decimal U)) (nonempty_lines tx)) = 6 \<longrightarrow>
      spec_penalty U tx =
        (if of_nat (sum_list (map length (nonempty_lines tx))) / 10 < (20::rat) then 7 / 10 else 1)
          * (6 / 10))"
proof -
  let ?f = "\<lambda>d. d\<lparr> final_score :=
               Some (score d * spec_penalty U (doc_text d) * spec_bonus U query (doc_text d)) \<rparr>"
  let ?items = "sorted_desc final_score_or_0 (map ?f docs)"
  have m: "map (score_doc U (remdups (findall_words (is_word U) [] (lower U query)))) docs
             = map ?f docs"
    by (simp add: score_doc_update)
  have r: "rerank_by_heuristics U query docs top_k = take (slice_bound (length ?items) top_k) ?items"
    by (simp only: rerank_by_heuristics_def Let_def m py_slice_take)
  have len: "length ?items = length docs" by (simp add: sorted_desc_def)
  have n: "0 \<le> top_k \<longrightarrow> slice_bound (length ?items) top_k = min (nat top_k) (length docs)"
    by (simp add: len slice_bound_def)
  have 2: "\<exists>ys n. mset ys = mset (map ?f docs) \<and>
        sorted_wrt (\<lambda>a b. final_score_or_0 b \<le> final_score_or_0 a) ys \<and>
        rerank_by_heuristics U query docs top_k = take n ys \<and>
        (0 \<le> top_k \<longrightarrow> n = min (nat top_k) (length docs))"
    using sorted_desc_mset[of final_score_or_0 "map ?f docs"]
      sorted_desc_sorted_wrt[of final_score_or_0 "map ?f docs"] r n
    by blast
  have "sorted_wrt (\<lambda>a b. b \<le> a) (map final_score_or_0 ?items)"
    by (rule sorted_desc_sorted)
  then have 3: "sorted_wrt (\<lambda>a b. b \<le> a)
      (map final_score_or_0 (rerank_by_heuristics U query docs top_k))"
    unfolding r by (simp add: take_map[symmetric] sorted_wrt_take)
  have 4: "spec_penalty U tx =
        (if of_nat (sum_list (map length (nonempty_lines tx))) / 10 < (20::rat) then 7 / 10 else 1)
          * (6 / 10)"
    if "length (nonempty_lines tx) = 10"
      "length (filter (list_pattern_match (is_decimal U)) (nonempty_lines tx)) = 6"
  proof -
    from that(1) have "nonempty_lines tx \<noteq> []" by auto
    with that show ?thesis by (simp add: spec_penalty_def Let_def)
  qed
  from score_doc_final[of U query d] 2 3 4 show ?thesis by blast
qed

theorem heuristic_rerank_scores_witness:
  "final_score (score_doc ascii
      (remdups (findall_words (is_word ascii) [] (lower ascii demo_query)))
      (demo_doc ''a'' (1 / 2) ten_line_list)) = Some (21 / 100) \<and>
   (0::int) \<le> 1 \<and>
   rerank_by_heuristics ascii demo_query
      [demo_doc ''a'' (1 / 2) ten_line_list, demo_doc ''b'' (2 / 5) demo_prose] 1
     = [(demo_doc ''b'' (2 / 5) demo_prose) \<lparr> final_score := Some (11 / 25) \<rparr>] \<and>
   length (nonempty_lines ten_line_list) = 10 \<and>
   length (filter (list_pattern_match (is_decimal ascii)) (nonempty_lines ten_line_list)) = 6 \<and>
   spec_penalty ascii ten_line_list = 21 / 50"
proof -
  let ?D = "demo_doc ''a'' (1 / 2) ten_line_list"
  let ?E = "demo_doc ''b'' (2 / 5) demo_prose"
  let ?D' = "?D\<lparr> final_score := Some (21 / 100) \<rparr>"
  let ?E' = "?E\<lparr> final_score := Some (11 / 25) \<rparr>"
  note t = heuristic_rerank_scores[of ascii demo_query ?D "[?D, ?E]" 1 ten_line_list]
  have dD: "doc_text ?D = ten_line_list" by (rule doc_text_demo) (simp add: ten_line_list_def)
  have dE: "doc_text ?E = demo_prose" by (rule doc_text_demo) (simp add: demo_prose_def)
  have sD: "score ?D = 1 / 2" and sE: "score ?E = 2 / 5" by (simp_all add: demo_doc_def)
  have h1: "length (nonempty_lines ten_line_list) = 10" by (simp add: lines_ten)
  note h2 = markers_ten
  have a: "final_score (score_doc ascii
      (remdups (findall_words (is_word ascii) [] (lower ascii demo_query))) ?D) = Some (21 / 100)"
    using t[THEN conjunct1] by (simp add: dD sD penalty_ten bonus_ten)
  from t[THEN conjunct2, THEN conjunct1] obtain ys n where
    ms: "mset ys = mset (map (\<lambda>d. d\<lparr> final_score := Some (score d * spec_penalty ascii (doc_text d)
                 * spec_bonus ascii demo_query (doc_text d)) \<rparr>) [?D, ?E])"
    and so: "sorted_wrt (\<lambda>a b. final_score_or_0 b \<le> final_score_or_0 a) ys"
    and re: "rerank_by_heuristics ascii demo_query [?D, ?E] 1 = take n ys"
    and "0 \<le> (1::int) \<longrightarrow> n = min (nat 1) (length [?D, ?E])" by blast
  then have n1: "n = 1" by simp
  from ms have ms': "mset ys = {#?D', ?E'#}"
    by (simp add: dD dE sD sE penalty_ten bonus_ten penalty_prose bonus_prose)
  then have "length ys = 2" using mset_eq_length[of ys "[?D', ?E']"] by simp
  then obtain x y where xy: "ys = [x, y]"
    by (cases ys; cases "tl ys") auto
  from ms' have "(x = ?D' \<and> y = ?E') \<or> (x = ?E' \<and> y = ?D')"
    unfolding xy by (auto simp: add_eq_conv_ex)
  moreover have "\<not> final_score_or_0 ?E' \<le> final_score_or_0 ?D'"
    by (simp add: final_score_or_0_def)
  ultimately have "ys = [?E', ?D']" using so unfolding xy by auto
  with re n1 have b: "rerank_by_heuristics ascii demo_query [?D, ?E] 1 = [?E']" by simp
  from t[THEN conjunct2, THEN conjunct2, THEN conjunct2] h1 h2
  have "spec_penalty ascii ten_line_list =
        (if of_nat (sum_list (map length (nonempty_lines ten_line_list))) / 10 < (20::rat)
         then 7 / 10 else 1) * (6 / 10)" by blast
  then have p: "spec_penalty ascii ten_line_list = 21 / 50" by (simp add: lines_ten)
  from a b h1 h2 p show ?thesis by simp
qed

section \<open>The LLM-search route (\<open>routes.llm_search\<close>)\<close>

text \<open>The completion provider's settings (\<open>models.LLMConfig\<close>).\<close>

record llm_config =
  base_url :: string
  api_key :: string
  model :: string

text \<open>The test \<open>not config or not config.api_key\<close>, negated.\<close>

definition configured :: "llm_config option \<Rightarrow> bool" where
  "configured config \<longleftrightarrow> (case config of None \<Rightarrow> False | Some c \<Rightarrow> api_key c \<noteq> [])"

text \<open>The \<open>error\<close> entry of what \<open>generate_keywords\<close> returns: the message
  \<open>LLM not configured, please fill in the API information in the settings\<close> (in
  Chinese in the source), or one of the messages of the HTTP path.\<close>

datatype keyword_error = Keywords_not_configured | Keywords_failed ustring

record keyword_result =
  kw_keywords :: "ustring list"
  kw_error :: "keyword_error option"

text \<open>The collaborators of the route: the Unicode tables, the embedding model, the
  index, and the two answers of the completion provider (the keywords of its HTTP path,
  with every failure already turned into a result as the source does, and the score map
  of the reranking prompt, \<open>None\<close> when the call or the parsing fails).\<close>

record services =
  uni :: unicode
  encode :: "ustring \<Rightarrow> rat list"
  col :: collection
  keywords_http :: "ustring \<Rightarrow> keyword_result"
  rerank_http :: "ustring \<Rightarrow> doc list \<Rightarrow> (nat \<Rightarrow> rat option) option"

text \<open>\<open>llm_service.generate_keywords\<close>\<close>

definition generate_keywords :: "llm_config option \<Rightarrow> services \<Rightarrow> ustring \<Rightarrow> keyword_result" where
  "generate_keywords config S user_query =
     (if \<not> configured config
      then \<lparr> kw_keywords = [], kw_error = Some Keywords_not_configured \<rparr>
      else keywords_http S user_query)"

text \<open>The inner loop of the recall stage: keep, per URL, the result with the highest
  score.\<close>

fun merge_results :: "(string \<times> doc) list \<Rightarrow> doc list \<Rightarrow> (string \<times> doc) list" where
  "merge_results seen_urls [] = seen_urls"
| "merge_results seen_urls (r # results) =
     (if (case map_of seen_urls (url r) of None \<Rightarrow> True | Some s \<Rightarrow> score s < score r)
      then merge_results (AList.update (url r) r seen_urls) results
      else merge_results seen_urls results)"

text \<open>The loop over the keywords; an exception of the index ends the request.\<close>

fun recall :: "services \<Rightarrow> int \<Rightarrow> (string \<times> doc) list \<Rightarrow> ustring list
    \<Rightarrow> (string \<times> doc) list option" where
  "recall S recall_top_k seen_urls [] = Some seen_urls"
| "recall S recall_top_k seen_urls (keyword # keywords) =
     (case search (col S) (encode S keyword) recall_top_k True of
        None \<Rightarrow> None
      | Some results \<Rightarrow> recall S recall_top_k (merge_results seen_urls results) keywords)"

text \<open>\<open>reranker_service.rerank_with_llm\<close>, the provider's scores given by
  \<open>rerank_http\<close>.\<close>

definition rerank_with_llm ::
  "llm_config option \<Rightarrow> services \<Rightarrow> ustring \<Rightarrow> doc list \<Rightarrow> int \<Rightarrow> doc list" where
  "rerank_with_llm config S query docs top_k =
     (if \<not> configured config then py_slice docs 0 top_k
      else if docs = [] then []
      else case rerank_http S query docs of
             None \<Rightarrow> py_slice docs 0 top_k
           | Some score_map \<Rightarrow>
               (let scored = map (\<lambda>(i, d).
                      (let llm_score = (case score_map i of None \<Rightarrow> 50 | Some s \<Rightarrow> s)
                       in d\<lparr> rerank_score := Some llm_score,
                             final_score := Some (3 / 10 * (score d * 100) + 7 / 10 * llm_score) \<rparr>))
                     (enumerate 0 docs);
                    reranked = sorted_desc final_score_or_0 scored
                in py_slice reranked 0 top_k))"

text \<open>\<open>reranker_service.rerank\<close>\<close>

definition rerank ::
  "llm_config option \<Rightarrow> services \<Rightarrow> ustring \<Rightarrow> doc list \<Rightarrow> int \<Rightarrow> bool \<Rightarrow> doc list" where
  "rerank config S query docs top_k use_llm =
     (if docs = [] then []
      else if use_llm \<and> configured config then rerank_with_llm config S query docs top_k
      else rerank_by_heuristics (uni S) query docs top_k)"

text \<open>A \<open>SearchResult\<close> and the response of the route.\<close>

record search_result =
  sr_url :: string
  sr_title :: ustring
  sr_tab_id :: int
  sr_favicon :: ustring
  sr_score :: rat

record llm_search_response =
  resp_keywords :: "ustring list"
  resp_results :: "search_result list"
  resp_llm_error :: "keyword_error option"

text \<open>The clean-up loop and \<open>SearchResult(**r)\<close>: the final score, when there is one,
  divided by 100 becomes the score; the other internal keys are dropped.\<close>

definition to_search_result :: "doc \<Rightarrow> search_result" where
  "to_search_result r =
     \<lparr> sr_url = url r, sr_title = title r, sr_tab_id = tab_id r, sr_favicon = favicon r,
       sr_score = (case final_score r of Some f \<Rightarrow> f / 100 | None \<Rightarrow> score r) \<rparr>"

definition llm_search ::
  "llm_config option \<Rightarrow> services \<Rightarrow> ustring \<Rightarrow> int \<Rightarrow> llm_search_response option" where
  "llm_search config S query top_k =
     (let llm_result = generate_keywords config S query;
          keywords = kw_keywords llm_result;
          llm_error = kw_error llm_result;
          keywords = (if keywords = [] then [query] else keywords);
          recall_top_k = min (top_k * 3) 20
      in case recall S recall_top_k [] keywords of
           None \<Rightarrow> None
         | Some seen_urls \<Rightarrow>
             (let merged = sorted_desc score (map snd seen_urls);
                  reranked = rerank config S query merged top_k True
              in Some \<lparr> resp_keywords = keywords,
                        resp_results = map to_search_result reranked,
                        resp_llm_error = llm_error \<rparr>))"

text \<open>The candidates handed to the reranker when no provider is configured: the
  raw query is the only keyword.\<close>

definition merged_for :: "services \<Rightarrow> ustring \<Rightarrow> int \<Rightarrow> doc list" where
  "merged_for S query top_k =
     (case recall S (min (top_k * 3) 20) [] [query] of
        None \<Rightarrow> []
      | Some seen_urls \<Rightarrow> sorted_desc score (map snd seen_urls))"

lemma llm_search_unconfigured:
  assumes "\<not> configured config"
  shows "llm_search config S query top_k =
     (case recall S (min (top_k * 3) 20) [] [query] of
        None \<Rightarrow> None
      | Some seen_urls \<Rightarrow>
          Some \<lparr> resp_keywords = [query],
                 resp_results = map to_search_result
                   (if merged_for S query top_k = [] then []
                    else rerank_by_heuristics (uni S) query (merged_for S query top_k) top_k),
                 resp_llm_error = Some Keywords_not_configured \<rparr>)"
  using assms
  by (simp add: llm_search_def generate_keywords_def rerank_def merged_for_def Let_def
      split: option.splits)


lemma in_rerank_by_heuristics:
  assumes "r \<in> set (rerank_by_heuristics U query docs top_k)"
  shows "\<exists>d\<in>set docs. r = d\<lparr> final_score :=
           Some (score d * spec_penalty U (doc_text d) * spec_bonus U query (doc_text d)) \<rparr>"
proof -
  let ?f = "\<lambda>d. d\<lparr> final_score :=
               Some (score d * spec_penalty U (doc_text d) * spec_bonus U query (doc_text d)) \<rparr>"
  have m: "map (score_doc U (remdups (findall_words (is_word U) [] (lower U query)))) docs
             = map ?f docs"
    by (simp add: score_doc_update)
  from assms have "r \<in> set (take (slice_bound (length docs) top_k)
                      (sorted_desc final_score_or_0 (map ?f docs)))"
    by (simp only: rerank_by_heuristics_def Let_def m py_slice_take)
      (simp add: sorted_desc_def)
  then have "r \<in> set (sorted_desc final_score_or_0 (map ?f docs))" by (rule in_set_takeD)
  then show ?thesis by (auto simp: sorted_desc_set)
qed

text \<open>What the route gets from the one search it makes when no provider is configured:
  a list without repeated URLs in descending order of score, which the merging loop and
  the sort of the route leave as it is.\<close>

lemma search_distinct_sorted:
  assumes "search cl q top_k inc = Some rs"
  shows "distinct (map url rs) \<and> sorted_wrt (\<lambda>a b. b \<le> a) (map score rs)"
proof (cases "col_count cl = 0")
  case True
  with assms have "rs = []" by (simp add: search_def)
  then show ?thesis by simp
next
  case False
  with assms obtain res where res: "col_query cl q (min (top_k * 5) (int (col_count cl))) = Some res"
    by (auto simp: search_def Let_def split: option.splits)
  define cands where "cands = enumerate 0 (zip (metadatas res) (distances res))"
  define seen where "seen = dedup_loop inc (if inc then documents res else []) [] cands"
  define items where "items = sorted_desc score (map snd seen)"
  have rs: "rs = py_slice items 0 top_k"
    using assms False res by (simp add: search_def Let_def items_def seen_def cands_def)
  from py_slice_prefix[of items top_k] obtain n where n: "rs = take n items"
    unfolding rs by blast
  have "seen_inv [] []" by (simp add: seen_inv_def)
  from dedup_loop_inv[OF this, of inc "if inc then documents res else []" cands]
  have inv: "seen_inv seen cands" by (simp add: seen_def)
  then have d: "distinct (map fst seen)"
    and i2: "\<And>v it. map_of seen v = Some it \<Longrightarrow> url it = v"
    unfolding seen_inv_def by blast+
  have key: "url it = v" if "(v, it) \<in> set seen" for v it
    using i2[of v it] that d by simp
  have "map (url \<circ> snd) seen = map fst seen"
    using key by auto
  with d have "distinct (map url (map snd seen))" by (simp only: map_map)
  then have di: "distinct (map url items)"
    unfolding items_def by (rule sorted_desc_distinct_map)
  have 2: "distinct (map url rs)" using di by (simp add: n(1) take_map[symmetric])
  have "sorted_wrt (\<lambda>a b. b \<le> a) (map score items)"
    unfolding items_def by (rule sorted_desc_sorted)
  then have 3: "sorted_wrt (\<lambda>a b. b \<le> a) (map score rs)"
    by (simp add: n(1) take_map[symmetric] sorted_wrt_take)
  from 2 3 show ?thesis by blast
qed

lemma update_fresh: "k \<notin> fst ` set al \<Longrightarrow> AList.update k v al = al @ [(k, v)]"
  by (induction al) auto

lemma merge_results_distinct:
  assumes "distinct (map url rs)" and "\<forall>r\<in>set rs. url r \<notin> fst ` set seen"
  shows "merge_results seen rs = seen @ map (\<lambda>r. (url r, r)) rs"
  using assms
proof (induction rs arbitrary: seen)
  case Nil
  then show ?case by simp
next
  case (Cons r rs)
  from Cons.prems(2) have n: "map_of seen (url r) = None"
    by (simp add: map_of_eq_None_iff)
  from Cons.prems(2) have u: "AList.update (url r) r seen = seen @ [(url r, r)]"
    by (simp add: update_fresh)
  have "merge_results (seen @ [(url r, r)]) rs = (seen @ [(url r, r)]) @ map (\<lambda>r. (url r, r)) rs"
  proof (rule Cons.IH)
    show "distinct (map url rs)" using Cons.prems(1) by simp
    show "\<forall>x\<in>set rs. url x \<notin> fst ` set (seen @ [(url r, r)])"
    proof
      fix x assume x: "x \<in> set rs"
      then have "url x \<in> url ` set rs" by (rule imageI)
      moreover have "url r \<notin> url ` set rs" using Cons.prems(1) by simp
      ultimately have "url x \<noteq> url r" by metis
      moreover have "url x \<notin> fst ` set seen" using Cons.prems(2) x by simp
      ultimately show "url x \<notin> fst ` set (seen @ [(url r, r)])" by simp
    qed
  qed
  with n u show ?case by simp
qed

lemma sorted_desc_id:
  assumes "sorted_wrt (\<lambda>a b. b \<le> a) (map f xs)"
  shows "sorted_desc f xs = xs"
proof -
  from assms have "sorted (rev (map f xs))"
    by (simp add: sorted_wrt_rev)
  then have "sorted (map f (rev xs))" by (simp add: rev_map)
  then have "sort_key f (rev xs) = rev xs" by (rule sort_key_id_if_sorted)
  then show ?thesis by (simp add: sorted_desc_def)
qed

lemma merged_for_search:
  assumes "search (col S) (encode S query) (min (top_k * 3) 20) True = Some found"
  shows "recall S (min (top_k * 3) 20) [] [query] = Some (map (\<lambda>r. (url r, r)) found)"
    and "merged_for S query top_k = found"
proof -
  from search_distinct_sorted[OF assms]
  have d: "distinct (map url found)" and s: "sorted_wrt (\<lambda>a b. b \<le> a) (map score found)" by blast+
  have m: "merge_results [] found = map (\<lambda>r. (url r, r)) found"
    using merge_results_distinct[of found "[]"] d by simp
  show r: "recall S (min (top_k * 3) 20) [] [query] = Some (map (\<lambda>r. (url r, r)) found)"
    using assms m by simp
  have "map snd (map (\<lambda>r. (url r, r)) found) = found" by (simp add: comp_def)
  then show "merged_for S query top_k = found"
    unfolding merged_for_def r using sorted_desc_id[OF s] by simp
qed

lemma rerank_by_heuristics_nil: "rerank_by_heuristics U query [] top_k = []"
  by (simp add: rerank_by_heuristics_def py_slice_def sorted_desc_def Let_def)

text \<open>Example data: the collaborators around the example index, with a provider that
  returns nothing; the query \<open>z\<close>.\<close>

definition demo_services :: services where
  "demo_services =
     \<lparr> uni = ascii, encode = (\<lambda>k. []), col = demo_collection,
       keywords_http = (\<lambda>q. \<lparr> kw_keywords = [], kw_error = None \<rparr>),
       rerank_http = (\<lambda>q ds. None) \<rparr>"

definition demo_hit :: "string \<Rightarrow> ustring \<Rightarrow> int \<Rightarrow> rat \<Rightarrow> ustring \<Rightarrow> doc" where
  "demo_hit u ti tab sc tx = \<lparr> url = u, title = ti, tab_id = tab, favicon = [], score = sc,
      text_of = Some tx, rerank_score = None, final_score = None \<rparr>"

lemma demo_search_text:
  "search demo_collection [] 6 True =
     Some [demo_hit ''a'' [65] 1 (7 / 8) [122], demo_hit ''b'' [66] 2 (3 / 4) [121]]"
  by code_simp

lemma demo_merged:
  "merged_for demo_services [122] 2 =
     [demo_hit ''a'' [65] 1 (7 / 8) [122], demo_hit ''b'' [66] 2 (3 / 4) [121]]"
  by (simp add: merged_for_def demo_services_def demo_search_text)
    (simp add: demo_hit_def sorted_desc_def)

lemma demo_recall:
  "recall demo_services (min (2 * 3) 20) [] [[122]] =
     Some [(''a'', demo_hit ''a'' [65] 1 (7 / 8) [122]), (''b'', demo_hit ''b'' [66] 2 (3 / 4) [121])]"
  by (simp add: demo_services_def demo_search_text) (simp add: demo_hit_def)

lemma nonempty_lines_single:
  "c \<noteq> 10 \<Longrightarrow> \<not> is_space c \<Longrightarrow> nonempty_lines [c] = [[c]]"
  by (simp add: nonempty_lines_def strip_def)

lemma demo_heuristics:
  "rerank_by_heuristics ascii [122]
      [demo_hit ''a'' [65] 1 (7 / 8) [122], demo_hit ''b'' [66] 2 (3 / 4) [121]] 2 =
     [(demo_hit ''a'' [65] 1 (7 / 8) [122])\<lparr> final_score := Some (1029 / 1600) \<rparr>,
      (demo_hit ''b'' [66] 2 (3 / 4) [121])\<lparr> final_score := Some (21 / 40) \<rparr>]"
proof -
  have t: "remdups (findall_words (is_word ascii) [] (lower ascii [122])) = [[122]]"
    by (simp add: ascii_def)
  have l: "nonempty_lines [122] = [[122]]" "nonempty_lines [121] = [[121]]"
    by (simp_all add: nonempty_lines_single is_space_def)
  have "{t \<in> set (findall_words (is_word ascii) [] (lower ascii [122])).
           sublist t (lower ascii [122])} = {[122]}"
    by (auto simp: ascii_def)
  then have ba: "spec_bonus ascii [122] [122] = 21 / 20" by (simp add: spec_bonus_def)
  have "{t \<in> set (findall_words (is_word ascii) [] (lower ascii [122])).
           sublist t (lower ascii [121])} = {}"
    by (auto simp: ascii_def dest: set_mono_sublist)
  then have bb: "spec_bonus ascii [122] [121] = 1" by (simp add: spec_bonus_def)
  have dec: "\<not> list_pattern_match (is_decimal ascii) [122]"
    "\<not> list_pattern_match (is_decimal ascii) [121]"
    by (simp_all add: list_pattern_match_def ascii_def)
  have a: "score_doc ascii [[122]] (demo_hit ''a'' [65] 1 (7 / 8) [122])
             = (demo_hit ''a'' [65] 1 (7 / 8) [122])\<lparr> final_score := Some (1029 / 1600) \<rparr>"
    unfolding t[symmetric] score_doc_update
    by (simp add: doc_text_def demo_hit_def spec_penalty_def ba bb l dec)
  have b: "score_doc ascii [[122]] (demo_hit ''b'' [66] 2 (3 / 4) [121])
             = (demo_hit ''b'' [66] 2 (3 / 4) [121])\<lparr> final_score := Some (21 / 40) \<rparr>"
    unfolding t[symmetric] score_doc_update
    by (simp add: doc_text_def demo_hit_def spec_penalty_def ba bb l dec)
  show ?thesis
    unfolding rerank_by_heuristics_def Let_def t
    by (simp add: a b py_slice_take slice_bound_def)
      (simp add: sorted_desc_def final_score_or_0_def demo_hit_def)
qed

lemma demo_llm_search:
  "llm_search None demo_services [122] 2 =
     Some \<lparr> resp_keywords = [[122]],
            resp_results =
              [\<lparr> sr_url = ''a'', sr_title = [65], sr_tab_id = 1, sr_favicon = [],
                 sr_score = 1029 / 160000 \<rparr>,
               \<lparr> sr_url = ''b'', sr_title = [66], sr_tab_id = 2, sr_favicon = [],
                 sr_score = 21 / 4000 \<rparr>],
            resp_llm_error = Some Keywords_not_configured \<rparr>"
proof -
  have c: "\<not> configured None" by (simp add: configured_def)
  have u: "uni demo_services = ascii" by (simp add: demo_services_def)
  show ?thesis
    unfolding llm_search_unconfigured[OF c] demo_recall demo_merged u demo_heuristics
    by (simp add: to_search_result_def demo_hit_def)
qed


text \<open>
  C10.  When no provider is configured, the only keyword is the raw query and every
  result returned to the client carries the score
  \<open>original_similarity \<times> penalty \<times> bonus / 100\<close> of one of the merged candidates: the
  route divides the heuristic final score by 100 like the fused score of the other mode.
\<close>

theorem llm_search_heuristic_scores:
  assumes "\<not> configured config" and "llm_search config S query top_k = Some resp"
  shows "resp_keywords resp = [query] \<and>
         (\<forall>r\<in>set (resp_results resp). \<exists>d\<in>set (merged_for S query top_k).
            sr_url r = url d \<and>
            sr_score r = score d * spec_penalty (uni S) (doc_text d)
                           * spec_bonus (uni S) query (doc_text d) / 100)"
proof -
  from assms(2) obtain seen where
    resp: "resp = \<lparr> resp_keywords = [query],
                 resp_results = map to_search_result
                   (if merged_for S query top_k = [] then []
                    else rerank_by_heuristics (uni S) query (merged_for S query top_k) top_k),
                 resp_llm_error = Some Keywords_not_configured \<rparr>"
    unfolding llm_search_unconfigured[OF assms(1)] by (auto split: option.splits)
  have "\<exists>d\<in>set (merged_for S query top_k).
            sr_url r = url d \<and>
            sr_score r = score d * spec_penalty (uni S) (doc_text d)
                           * spec_bonus (uni S) query (doc_text d) / 100"
    if "r \<in> set (resp_results resp)" for r
  proof -
    from that obtain x where x: "x \<in> set (rerank_by_heuristics (uni S) query (merged_for S query top_k) top_k)"
      and r: "r = to_search_result x"
      unfolding resp by (auto split: if_splits)
    from in_rerank_by_heuristics[OF x] obtain d where d: "d \<in> set (merged_for S query top_k)"
      "x = d\<lparr> final_score := Some (score d * spec_penalty (uni S) (doc_text d)
                 * spec_bonus (uni S) query (doc_text d)) \<rparr>" by blast
    then show ?thesis unfolding r by (auto simp: to_search_result_def)
  qed
  then show ?thesis by (simp add: resp)
qed

theorem llm_search_heuristic_scores_witness:
  "\<not> configured None \<and>
   llm_search None demo_services [122] 2 =
     Some \<lparr> resp_keywords = [[122]],
            resp_results =
              [\<lparr> sr_url = ''a'', sr_title = [65], sr_tab_id = 1, sr_favicon = [],
                 sr_score = 1029 / 160000 \<rparr>,
               \<lparr> sr_url = ''b'', sr_title = [66], sr_tab_id = 2, sr_favicon = [],
                 sr_score = 21 / 4000 \<rparr>],
            resp_llm_error = Some Keywords_not_configured \<rparr> \<and>
   demo_hit ''a'' [65] 1 (7 / 8) [122] \<in> set (merged_for demo_services [122] 2) \<and>
   (1029 / 160000 :: rat) = 7 / 8 * (7 / 10) * (21 / 20) / 100"
proof -
  have c: "\<not> configured None" by (simp add: configured_def)
  note t = llm_search_heuristic_scores[OF c demo_llm_search]
  have m: "demo_hit ''a'' [65] 1 (7 / 8) [122] \<in> set (merged_for demo_services [122] 2)"
    by (simp add: demo_merged)
  from t c demo_llm_search m show ?thesis by simp
qed

section \<open>The reasoning agent (\<open>agent_service.run_agent\<close>, \<open>agent_tools.dispatch_tool\<close>)\<close>

definition MAX_STEPS :: nat where "MAX_STEPS = 15"

text \<open>An exception that leaves a function: the \<open>KeyError\<close> of a missing dictionary
  key, or any other exception with its message.\<close>

datatype exn = KeyError string | Raised ustring

text \<open>The arguments of a tool call after \<open>json.loads\<close>: a dictionary in which each of
  the keys the tools read is present or not.  \<open>no_args\<close> is the empty dictionary.\<close>

record tool_args =
  arg_query :: "ustring option"
  arg_top_k :: "int option"
  arg_url :: "string option"
  arg_urls :: "string list option"
  arg_reason :: "ustring option"

definition no_args :: tool_args where
  "no_args = \<lparr> arg_query = None, arg_top_k = None, arg_url = None, arg_urls = None,
               arg_reason = None \<rparr>"

text \<open>A tool call as the model requests it, and the assistant message that carries
  the calls.\<close>

record tool_call =
  tc_id :: string
  tc_name :: string
  tc_arguments :: string

record llm_message =
  content :: ustring
  tool_calls :: "tool_call list"

text \<open>The dictionaries the tools return: an error payload, the hits of a search, the
  list of tabs, the content of a tab, or the restore action.\<close>

datatype tool_error = No_urls | Unknown_tool string | Tool_failed ustring

datatype tool_result =
    Tool_error tool_error
  | Tool_found nat "ustring list"
  | Tool_tabs nat "string list"
  | Tool_content string ustring ustring
  | Tool_action "string list" nat ustring

text \<open>\<open>_summarize_result\<close>\<close>

datatype summary =
    Sum_error tool_error
  | Sum_found nat "ustring list"
  | Sum_count nat
  | Sum_content ustring nat
  | Sum_action nat

fun summarize_result :: "tool_result \<Rightarrow> summary" where
  "summarize_result (Tool_error e) = Sum_error e"
| "summarize_result (Tool_found n titles) = Sum_found n (take 5 titles)"
| "summarize_result (Tool_tabs n tabs) = Sum_count n"
| "summarize_result (Tool_content u ti c) = Sum_content ti (length c)"
| "summarize_result (Tool_action urls n reason) = Sum_action n"

datatype message =
    System_msg
  | User_msg ustring
  | Assistant_msg llm_message
  | Tool_msg string tool_result

text \<open>The events of the stream.  The two error events carry the messages
  \<open>LLM not configured, fill in the API information in the settings before using the
  agent\<close> and \<open>LLM call failed:\<close> with the text of the exception (in Chinese in the
  source).\<close>

datatype agent_error = LLM_not_configured | LLM_call_failed exn

datatype agent_event =
    Thinking nat
  | Tool_call_event nat string tool_args
  | Tool_result_event nat string summary
  | Action_event "string list" nat
  | Answer_event ustring nat bool
  | Error_event agent_error

text \<open>The collaborators of the agent: the JSON parser (\<open>None\<close> for
  \<open>JSONDecodeError\<close>), the completion provider, and the three tools that read the
  index, each of which can raise.\<close>

record agent_env =
  json_loads :: "string \<Rightarrow> tool_args option"
  call_llm :: "message list \<Rightarrow> exn + llm_message"
  execute_search_tabs :: "ustring \<Rightarrow> int \<Rightarrow> exn + tool_result"
  execute_read_tab :: "string \<Rightarrow> exn + tool_result"
  execute_list_tabs :: "exn + tool_result"

definition execute_batch_restore :: "string list \<Rightarrow> ustring \<Rightarrow> tool_result" where
  "execute_batch_restore urls reason =
     (if urls = [] then Tool_error No_urls else Tool_action urls (length urls) reason)"

text \<open>\<open>dispatch_tool\<close>: \<open>arguments["k"]\<close> raises \<open>KeyError\<close> when the key is missing,
  \<open>arguments.get("k", d)\<close> does not.\<close>

definition dispatch_tool :: "agent_env \<Rightarrow> string \<Rightarrow> tool_args \<Rightarrow> exn + tool_result" where
  "dispatch_tool E name arguments =
     (if name = ''search_tabs'' then
        (case arg_query arguments of
           None \<Rightarrow> Inl (KeyError ''query'')
         | Some q \<Rightarrow> execute_search_tabs E q (case arg_top_k arguments of None \<Rightarrow> 5 | Some k \<Rightarrow> k))
      else if name = ''read_tab'' then
        (case arg_url arguments of
           None \<Rightarrow> Inl (KeyError ''url'')
         | Some u \<Rightarrow> execute_read_tab E u)
      else if name = ''list_tabs'' then execute_list_tabs E
      else if name = ''batch_restore'' then
        (case arg_urls arguments of
           None \<Rightarrow> Inl (KeyError ''urls'')
         | Some us \<Rightarrow>
             Inr (execute_batch_restore us (case arg_reason arguments of None \<Rightarrow> [] | Some r \<Rightarrow> r)))
      else Inr (Tool_error (Unknown_tool name)))"

text \<open>\<open>tool_result.get("action") == "batch_restore"\<close> and \<open>action.get("urls", [])\<close>\<close>

fun is_restore :: "tool_result \<Rightarrow> bool" where
  "is_restore (Tool_action urls n reason) = True"
| "is_restore r = False"

fun urls_of :: "tool_result \<Rightarrow> string list" where
  "urls_of (Tool_action urls n reason) = urls"
| "urls_of r = []"

text \<open>\<open>list(dict.fromkeys(xs))\<close>: the first occurrence of every element, in order.\<close>

definition dict_fromkeys :: "'a list \<Rightarrow> 'a list" where
  "dict_fromkeys xs = fold (\<lambda>x acc. if x \<in> set acc then acc else acc @ [x]) xs []"

text \<open>The loop over the tool calls of one response.  It returns the events it yields
  and either the exception that ends the generator or the new message history and
  restore actions.\<close>

fun run_tool_calls ::
  "agent_env \<Rightarrow> nat \<Rightarrow> tool_call list \<Rightarrow> message list \<Rightarrow> tool_result list
     \<Rightarrow> agent_event list \<times> (exn + message list \<times> tool_result list)" where
  "run_tool_calls E step [] messages restore_actions = ([], Inr (messages, restore_actions))"
| "run_tool_calls E step (tc # tcs) messages restore_actions =
     (let tool_name = tc_name tc;
          tool_id = tc_id tc;
          tool_args = (case json_loads E (tc_arguments tc) of None \<Rightarrow> no_args | Some a \<Rightarrow> a);
          ev_call = Tool_call_event (step + 1) tool_name tool_args
      in case dispatch_tool E tool_name tool_args of
           Inl e \<Rightarrow> ([ev_call], Inl e)
         | Inr tool_result \<Rightarrow>
             (let restore_actions =
                    (if tool_name = ''batch_restore'' \<and> is_restore tool_result
                     then restore_actions @ [tool_result] else restore_actions);
                  ev_result = Tool_result_event (step + 1) tool_name (summarize_result tool_result);
                  messages = messages @ [Tool_msg tool_id tool_result];
                  (evs, out) = run_tool_calls E step tcs messages restore_actions
              in (ev_call # ev_result # evs, out)))"

text \<open>The apology of the truncated answer: \<open>Sorry, I reasoned for several steps but
  reached no conclusion; please try a more specific question\<close>, in Chinese.\<close>

definition APOLOGY :: ustring where
  "APOLOGY =
      [25265, 27465, 65292, 25105, 36827, 34892, 20102, 22810, 27493, 25512, 29702,
      20294, 26410, 33021, 24471, 20986, 26368, 32456, 32467, 35770, 12290, 35831,
      23581, 35797, 26356, 20855, 20307, 30340, 38382, 39064, 12290]"

text \<open>The \<open>for step in range(MAX_STEPS)\<close> loop, \<open>n\<close> being the number of steps left;
  when none is left the truncated answer follows the loop.\<close>

fun agent_loop ::
  "agent_env \<Rightarrow> nat \<Rightarrow> nat \<Rightarrow> message list \<Rightarrow> tool_result list
     \<Rightarrow> agent_event list \<times> exn option" where
  "agent_loop E 0 step messages restore_actions =
     ([Answer_event APOLOGY MAX_STEPS True], None)"
| "agent_loop E (Suc n) step messages restore_actions =
     (case call_llm E messages of
        Inl e \<Rightarrow> ([Thinking (step + 1), Error_event (LLM_call_failed e)], None)
      | Inr message \<Rightarrow>
          if tool_calls message \<noteq> [] then
            (case run_tool_calls E step (tool_calls message)
                    (messages @ [Assistant_msg message]) restore_actions of
               (evs, Inl e) \<Rightarrow> (Thinking (step + 1) # evs, Some e)
             | (evs, Inr (messages', restore_actions')) \<Rightarrow>
                 (let (evs', out) = agent_loop E n (step + 1) messages' restore_actions'
                  in (Thinking (step + 1) # evs @ evs', out)))
          else
            (let answer = content message;
                 all_urls = dict_fromkeys (concat (map urls_of restore_actions))
             in (Thinking (step + 1) #
                 (if restore_actions \<noteq> [] then [Action_event all_urls (length all_urls)] else [])
                 @ [Answer_event answer (step + 1) False], None)))"

definition run_agent ::
  "llm_config option \<Rightarrow> agent_env \<Rightarrow> ustring \<Rightarrow> agent_event list \<times> exn option" where
  "run_agent config E user_query =
     (if \<not> configured config then ([Error_event LLM_not_configured], None)
      else agent_loop E MAX_STEPS 0 [System_msg, User_msg user_query] [])"


text \<open>Reading the event log: action and answer events, and the URL lists of the
  successful \<open>batch_restore\<close> calls, each visible as a \<open>tool_call\<close> event of that tool
  directly followed by a \<open>tool_result\<close> event with an action summary.\<close>

fun is_action :: "agent_event \<Rightarrow> bool" where
  "is_action (Action_event urls n) = True"
| "is_action e = False"

fun is_answer :: "agent_event \<Rightarrow> bool" where
  "is_answer (Answer_event c k t) = True"
| "is_answer e = False"

fun is_tool_result :: "agent_event \<Rightarrow> bool" where
  "is_tool_result (Tool_result_event s n r) = True"
| "is_tool_result e = False"

definition plain :: "agent_event list \<Rightarrow> bool" where
  "plain evs \<longleftrightarrow> (\<forall>e\<in>set evs. \<not> is_action e \<and> \<not> is_answer e)"

text \<open>What two consecutive events say: a successful \<open>batch_restore\<close> with its URLs, or
  nothing.\<close>

definition restore_of :: "agent_event \<Rightarrow> agent_event \<Rightarrow> string list list" where
  "restore_of e e' =
     (case e of
        Tool_call_event s name args \<Rightarrow>
          (case e' of
             Tool_result_event s' name' sm \<Rightarrow>
               (case sm of
                  Sum_action n \<Rightarrow>
                    if name = ''batch_restore''
                    then [case arg_urls args of Some us \<Rightarrow> us | None \<Rightarrow> []] else []
                | _ \<Rightarrow> [])
           | _ \<Rightarrow> [])
      | _ \<Rightarrow> [])"

fun restore_calls :: "agent_event list \<Rightarrow> string list list" where
  "restore_calls (e # e' # rest) = restore_of e e' @ restore_calls (e' # rest)"
| "restore_calls [e] = []"
| "restore_calls [] = []"

lemma restore_of_not_result: "\<not> is_tool_result e' \<Longrightarrow> restore_of e e' = []"
  by (cases e'; cases e) (simp_all add: restore_of_def)

lemma restore_of_not_call: "is_tool_result e \<or> is_action e \<or> is_answer e \<Longrightarrow> restore_of e e' = []"
  by (cases e) (simp_all add: restore_of_def)

lemma restore_calls_append:
  "rest = [] \<or> \<not> is_tool_result (hd rest) \<Longrightarrow>
     restore_calls (pre @ rest) = restore_calls pre @ restore_calls rest"
proof (induction pre rule: restore_calls.induct)
  case (1 e e' rest')
  then show ?case by simp
next
  case (2 e)
  then show ?case by (cases rest) (simp_all add: restore_of_not_result)
next
  case 3
  then show ?case by simp
qed

lemma restore_calls_Thinking [simp]: "restore_calls (Thinking k # evs) = restore_calls evs"
  by (cases evs) (simp_all add: restore_of_def)

lemma run_tool_calls_shape:
  assumes "run_tool_calls E step tcs msgs ras = (evs, out)"
  shows "plain evs \<and> (evs = [] \<or> \<not> is_tool_result (hd evs)) \<and>
         (\<forall>msgs' ras'. out = Inr (msgs', ras') \<longrightarrow>
            (\<exists>new. ras' = ras @ new \<and> (\<forall>r\<in>set new. is_restore r \<and> urls_of r \<noteq> []) \<and>
               map urls_of new = restore_calls evs))"
  using assms
proof (induction tcs arbitrary: msgs ras evs out)
  case Nil
  then show ?case by (auto simp: plain_def)
next
  case (Cons tc tcs)
  define args where "args = (case json_loads E (tc_arguments tc) of None \<Rightarrow> no_args | Some a \<Rightarrow> a)"
  define ev_call where "ev_call = Tool_call_event (step + 1) (tc_name tc) args"
  show ?case
  proof (cases "dispatch_tool E (tc_name tc) args")
    case (Inl e)
    with Cons.prems have "evs = [ev_call]" "out = Inl e"
      by (simp_all add: Let_def args_def ev_call_def)
    then show ?thesis by (simp add: plain_def ev_call_def)
  next
    case (Inr res)
    define ras1 where "ras1 = (if tc_name tc = ''batch_restore'' \<and> is_restore res
                     then ras @ [res] else ras)"
    define ev_result where "ev_result = Tool_result_event (step + 1) (tc_name tc) (summarize_result res)"
    obtain evs1 out1 where rec:
      "run_tool_calls E step tcs (msgs @ [Tool_msg (tc_id tc) res]) ras1 = (evs1, out1)"
      by (cases "run_tool_calls E step tcs (msgs @ [Tool_msg (tc_id tc) res]) ras1")
    with Cons.prems Inr have evs: "evs = ev_call # ev_result # evs1" and out: "out = out1"
      by (simp_all add: Let_def args_def ev_call_def ras1_def ev_result_def)
    note ih = Cons.IH[OF rec]
    have first: "restore_of ev_call ev_result = map urls_of (if tc_name tc = ''batch_restore'' \<and> is_restore res then [res] else [])
        \<and> (\<forall>r\<in>set (if tc_name tc = ''batch_restore'' \<and> is_restore res then [res] else []). is_restore r \<and> urls_of r \<noteq> [])"
    proof (cases "tc_name tc = ''batch_restore''")
      case True
      with Inr obtain us where us: "arg_urls args = Some us"
        "res = execute_batch_restore us (case arg_reason args of None \<Rightarrow> [] | Some r \<Rightarrow> r)"
        by (auto simp: dispatch_tool_def split: option.splits)
      show ?thesis
        using True us by (cases "us = []")
          (simp_all add: execute_batch_restore_def restore_of_def ev_call_def ev_result_def)
    next
      case False
      then show ?thesis
        by (cases res) (simp_all add: restore_of_def ev_call_def ev_result_def)
    qed
    have rc: "restore_calls evs = restore_of ev_call ev_result @ restore_calls evs1"
    proof (cases evs1)
      case Nil
      then show ?thesis by (simp add: evs)
    next
      case (Cons x xs)
      then have "restore_of ev_result x = []"
        by (simp add: restore_of_not_call ev_result_def)
      with Cons show ?thesis by (simp add: evs)
    qed
    have p: "plain evs" using ih by (simp add: evs plain_def ev_call_def ev_result_def)
    have h: "evs = [] \<or> \<not> is_tool_result (hd evs)" by (simp add: evs ev_call_def)
    have "\<exists>new. ras' = ras @ new \<and> (\<forall>r\<in>set new. is_restore r \<and> urls_of r \<noteq> []) \<and>
               map urls_of new = restore_calls evs"
      if "out = Inr (msgs', ras')" for msgs' ras'
    proof -
      from ih that out obtain new1 where n1: "ras' = ras1 @ new1"
        "\<forall>r\<in>set new1. is_restore r \<and> urls_of r \<noteq> []" "map urls_of new1 = restore_calls evs1"
        by blast
      let ?n0 = "if tc_name tc = ''batch_restore'' \<and> is_restore res then [res] else []"
      have "ras' = ras @ (?n0 @ new1)" using n1(1) by (simp add: ras1_def)
      moreover have "\<forall>r\<in>set (?n0 @ new1). is_restore r \<and> urls_of r \<noteq> []"
        using first n1(2) by auto
      moreover have "map urls_of (?n0 @ new1) = restore_calls evs"
        using first n1(3) rc by simp
      ultimately show ?thesis by blast
    qed
    with p h show ?thesis by blast
  qed
qed


text \<open>The action event that closes a run in which the URLs \<open>us\<close> were collected.\<close>

definition closing :: "string list \<Rightarrow> agent_event list" where
  "closing us =
     (if us \<noteq> [] then [Action_event (dict_fromkeys us) (length (dict_fromkeys us))] else [])"

definition restores :: "tool_result list \<Rightarrow> bool" where
  "restores ras \<longleftrightarrow> (\<forall>r\<in>set ras. is_restore r \<and> urls_of r \<noteq> [])"

lemma restores_nonempty: "restores ras \<Longrightarrow> (concat (map urls_of ras) \<noteq> []) = (ras \<noteq> [])"
  by (cases ras) (auto simp: restores_def)

definition shape :: "tool_result list \<Rightarrow> agent_event list \<Rightarrow> agent_event list \<Rightarrow> bool" where
  "shape ras evs pre \<longleftrightarrow>
     plain pre \<and> (pre = [] \<or> \<not> is_tool_result (hd pre)) \<and>
     (evs = pre \<or> evs = pre @ [Answer_event APOLOGY MAX_STEPS True] \<or>
      (\<exists>c k. evs = pre @ closing (concat (map urls_of ras) @ concat (restore_calls pre))
                 @ [Answer_event c k False]))"

lemma agent_loop_shape:
  assumes "agent_loop E n step msgs ras = (evs, out)" and "restores ras"
  shows "evs \<noteq> [] \<and> \<not> is_tool_result (hd evs) \<and> (\<exists>pre. shape ras evs pre)"
  using assms
proof (induction n arbitrary: step msgs ras evs out)
  case 0
  then have evs: "evs = [Answer_event APOLOGY MAX_STEPS True]" by simp
  have "shape ras evs []" by (simp add: shape_def plain_def evs)
  then have "\<exists>pre. shape ras evs pre" ..
  then show ?case by (simp add: evs)
next
  case (Suc n)
  show ?case
  proof (cases "call_llm E msgs")
    case (Inl e)
    with Suc.prems have evs: "evs = [Thinking (step + 1), Error_event (LLM_call_failed e)]" by simp
    have "shape ras evs evs" by (simp add: shape_def plain_def evs)
    then have "\<exists>pre. shape ras evs pre" ..
    then show ?thesis by (simp add: evs)
  next
    case (Inr m)
    show ?thesis
    proof (cases "tool_calls m \<noteq> []")
      case False
      have ne: "(concat (map urls_of ras) \<noteq> []) = (ras \<noteq> [])"
        using Suc.prems(2) by (rule restores_nonempty)
      have c: "closing (concat (map urls_of ras)) =
          (if ras \<noteq> [] then [Action_event (dict_fromkeys (concat (map urls_of ras)))
              (length (dict_fromkeys (concat (map urls_of ras))))] else [])"
        unfolding closing_def ne by (rule refl)
      from Suc.prems(1) Inr False have evs:
        "evs = [Thinking (step + 1)] @ closing (concat (map urls_of ras))
                 @ [Answer_event (content m) (step + 1) False]"
        unfolding c by (simp add: Let_def)
      have "shape ras evs [Thinking (step + 1)]"
        unfolding shape_def by (simp add: plain_def evs)
      then have "\<exists>pre. shape ras evs pre" ..
      then show ?thesis by (simp add: evs)
    next
      case True
      obtain evs1 o1 where tc: "run_tool_calls E step (tool_calls m) (msgs @ [Assistant_msg m]) ras = (evs1, o1)"
        by (cases "run_tool_calls E step (tool_calls m) (msgs @ [Assistant_msg m]) ras")
      note sh = run_tool_calls_shape[OF tc]
      from sh have pl1: "plain evs1" by (rule conjunct1)
      show ?thesis
      proof (cases o1)
        case (Inl e)
        with Suc.prems Inr True tc have evs: "evs = Thinking (step + 1) # evs1" by simp
        have "shape ras evs evs" using pl1 by (auto simp: shape_def plain_def evs)
        then have "\<exists>pre. shape ras evs pre" ..
        then show ?thesis by (simp add: evs)
      next
        case o1: (Inr pr)
        obtain msgs' ras' where pr: "pr = (msgs', ras')" by (cases pr)
        obtain evs' out' where rec: "agent_loop E n (step + 1) msgs' ras' = (evs', out')"
          by (cases "agent_loop E n (step + 1) msgs' ras'")
        from Suc.prems(1) Inr True tc o1 pr rec
        have evs: "evs = Thinking (step + 1) # evs1 @ evs'" by simp
        from sh have "\<exists>new. ras' = ras @ new \<and> (\<forall>r\<in>set new. is_restore r \<and> urls_of r \<noteq> []) \<and>
               map urls_of new = restore_calls evs1"
          using o1 pr by simp
        then obtain new where new: "ras' = ras @ new"
          "\<forall>r\<in>set new. is_restore r \<and> urls_of r \<noteq> []" "map urls_of new = restore_calls evs1"
          by blast
        have r': "restores ras'" using Suc.prems(2) new(2) by (simp add: restores_def new(1)) blast
        from Suc.IH[OF rec r'] obtain pre' where sp: "shape ras' evs' pre'" by blast
        then have pre': "plain pre'" "pre' = [] \<or> \<not> is_tool_result (hd pre')"
          and form: "evs' = pre' \<or> evs' = pre' @ [Answer_event APOLOGY MAX_STEPS True] \<or>
             (\<exists>c k. evs' = pre' @ closing (concat (map urls_of ras') @ concat (restore_calls pre'))
                        @ [Answer_event c k False])"
          unfolding shape_def by blast+
        define pre where "pre = Thinking (step + 1) # evs1 @ pre'"
        have pl: "plain pre" using pl1 pre'(1) by (auto simp: pre_def plain_def)
        have hp: "pre = [] \<or> \<not> is_tool_result (hd pre)" by (simp add: pre_def)
        have rc: "restore_calls pre = restore_calls evs1 @ restore_calls pre'"
          using restore_calls_append[OF pre'(2), of evs1] by (simp add: pre_def)
        have us: "concat (map urls_of ras') @ concat (restore_calls pre')
                    = concat (map urls_of ras) @ concat (restore_calls pre)"
          using new(3) by (simp add: new(1) rc)
        have e1: "evs = pre" if "evs' = pre'" using that by (simp add: evs pre_def)
        have e2: "evs = pre @ [Answer_event APOLOGY MAX_STEPS True]"
          if "evs' = pre' @ [Answer_event APOLOGY MAX_STEPS True]"
          using that by (simp add: evs pre_def)
        have e3: "\<exists>c k. evs = pre @ closing (concat (map urls_of ras) @ concat (restore_calls pre))
                        @ [Answer_event c k False]"
          if "\<exists>c k. evs' = pre' @ closing (concat (map urls_of ras') @ concat (restore_calls pre'))
                        @ [Answer_event c k False]"
        proof -
          from that obtain c k where "evs' = pre' @ closing (concat (map urls_of ras') @ concat (restore_calls pre'))
                        @ [Answer_event c k False]" by blast
          then have "evs = pre @ closing (concat (map urls_of ras) @ concat (restore_calls pre))
                        @ [Answer_event c k False]"
            unfolding us by (simp add: evs pre_def)
          then show ?thesis by blast
        qed
        from form e1 e2 e3 have "evs = pre \<or> evs = pre @ [Answer_event APOLOGY MAX_STEPS True] \<or>
             (\<exists>c k. evs = pre @ closing (concat (map urls_of ras) @ concat (restore_calls pre))
                        @ [Answer_event c k False])"
          by blast
        with pl hp have "shape ras evs pre" unfolding shape_def by blast
        then have "\<exists>pre. shape ras evs pre" ..
        then show ?thesis by (simp add: evs)
      qed
    qed
  qed
qed

text \<open>Example data: a provider that asks for \<open>batch_restore\<close> of \<open>a, b\<close>, then of
  \<open>b, c\<close>, then answers \<open>OK\<close>; it tells the steps apart by the length of the history.
  The argument strings \<open>1\<close> and \<open>2\<close> stand for the JSON of the two URL lists.\<close>

definition demo_config :: llm_config where
  "demo_config = \<lparr> base_url = ''http://localhost'', api_key = ''k'', model = ''m'' \<rparr>"

definition restore_call :: "string \<Rightarrow> tool_call" where
  "restore_call arguments = \<lparr> tc_id = ''call'', tc_name = ''batch_restore'', tc_arguments = arguments \<rparr>"

definition demo_json :: "string \<Rightarrow> tool_args option" where
  "demo_json s =
     (if s = ''1'' then Some (no_args\<lparr> arg_urls := Some [''a'', ''b''] \<rparr>)
      else if s = ''2'' then Some (no_args\<lparr> arg_urls := Some [''b'', ''c''] \<rparr>)
      else None)"

definition demo_agent_env :: agent_env where
  "demo_agent_env =
     \<lparr> json_loads = demo_json,
       call_llm = (\<lambda>messages.
          if length messages = 2 then Inr \<lparr> content = [], tool_calls = [restore_call ''1''] \<rparr>
          else if length messages = 4 then Inr \<lparr> content = [], tool_calls = [restore_call ''2''] \<rparr>
          else Inr \<lparr> content = [79, 75], tool_calls = [] \<rparr>),
       execute_search_tabs = (\<lambda>q k. Inr (Tool_found 0 [])),
       execute_read_tab = (\<lambda>u. Inr (Tool_error (Tool_failed []))),
       execute_list_tabs = Inr (Tool_tabs 0 []) \<rparr>"

lemma demo_restore_run:
  "run_agent (Some demo_config) demo_agent_env [] =
     ([Thinking 1,
       Tool_call_event 1 ''batch_restore'' (no_args\<lparr> arg_urls := Some [''a'', ''b''] \<rparr>),
       Tool_result_event 1 ''batch_restore'' (Sum_action 2),
       Thinking 2,
       Tool_call_event 2 ''batch_restore'' (no_args\<lparr> arg_urls := Some [''b'', ''c''] \<rparr>),
       Tool_result_event 2 ''batch_restore'' (Sum_action 2),
       Thinking 3,
       Action_event [''a'', ''b'', ''c''] 3,
       Answer_event [79, 75] 3 False], None)"
  by code_simp


lemma restore_calls_closing:
  "restore_calls (closing us @ [Answer_event c k t]) = []"
  by (simp add: closing_def restore_of_def)

lemma run_agent_shape:
  assumes "run_agent config E user_query = (evs, out)"
  shows "evs \<noteq> [] \<and> (\<exists>pre. shape [] evs pre)"
proof (cases "configured config")
  case False
  with assms have evs: "evs = [Error_event LLM_not_configured]" by (simp add: run_agent_def)
  have "shape [] evs evs" by (simp add: shape_def plain_def evs)
  then have "\<exists>pre. shape [] evs pre" ..
  then show ?thesis by (simp add: evs)
next
  case True
  with assms have "agent_loop E MAX_STEPS 0 [System_msg, User_msg user_query] [] = (evs, out)"
    by (simp add: run_agent_def)
  from agent_loop_shape[OF this] show ?thesis by (simp add: restores_def)
qed

lemma shape_answered:
  assumes "shape [] evs pre" and "evs \<noteq> []" and "last evs = Answer_event c k False"
  shows "evs = pre @ closing (concat (restore_calls evs)) @ [Answer_event c k False]"
proof -
  from assms(1) have pl: "plain pre"
    and form: "evs = pre \<or> evs = pre @ [Answer_event APOLOGY MAX_STEPS True] \<or>
      (\<exists>c k. evs = pre @ closing (concat (map urls_of []) @ concat (restore_calls pre))
                 @ [Answer_event c k False])"
    and hp: "pre = [] \<or> \<not> is_tool_result (hd pre)"
    unfolding shape_def by blast+
  have n1: "evs \<noteq> pre"
  proof
    assume "evs = pre"
    with assms(2,3) have "Answer_event c k False \<in> set pre" by (metis last_in_set)
    with pl show False by (auto simp: plain_def)
  qed
  have n2: "evs \<noteq> pre @ [Answer_event APOLOGY MAX_STEPS True]"
    using assms(3) by auto
  from form n1 n2 obtain c' k' where
    e: "evs = pre @ closing (concat (restore_calls pre)) @ [Answer_event c' k' False]"
    by auto
  with assms(3) have ck: "c' = c" "k' = k" by simp_all
  have "restore_calls evs = restore_calls pre @
          restore_calls (closing (concat (restore_calls pre)) @ [Answer_event c' k' False])"
    unfolding e by (rule restore_calls_append) (simp add: closing_def)
  then have "restore_calls evs = restore_calls pre" by (simp add: restore_calls_closing)
  with e ck show ?thesis by simp
qed

text \<open>
  C6.  In a run that ends with a response without tool calls (the last event is the
  answer, not truncated), the events are: events that are no action, then one action
  event with the URLs of the successful \<open>batch_restore\<close> calls of the run, each once and
  in the order of first occurrence, with their number (nothing when there was no such
  call), then the answer.  For the calls \<open>a, b\<close> and \<open>b, c\<close> the action event has
  URLs \<open>a, b, c\<close> and count 3.
\<close>

theorem restore_urls_accumulated:
  assumes "run_agent config E user_query = (evs, out)"
    and "evs \<noteq> []" and "last evs = Answer_event c k False"
  shows "(\<exists>pre. evs = pre @ closing (concat (restore_calls evs)) @ [Answer_event c k False] \<and>
            (\<forall>e\<in>set pre. \<not> is_action e)) \<and>
         (restore_calls evs = [[''a'', ''b''], [''b'', ''c'']] \<longrightarrow>
            closing (concat (restore_calls evs)) = [Action_event [''a'', ''b'', ''c''] 3])"
proof -
  from run_agent_shape[OF assms(1)] obtain pre where sh: "shape [] evs pre" by blast
  from shape_answered[OF sh assms(2,3)]
  have e: "evs = pre @ closing (concat (restore_calls evs)) @ [Answer_event c k False]" .
  from sh have "\<forall>e\<in>set pre. \<not> is_action e" by (simp add: shape_def plain_def)
  with e have 1: "\<exists>pre. evs = pre @ closing (concat (restore_calls evs)) @ [Answer_event c k False] \<and>
            (\<forall>e\<in>set pre. \<not> is_action e)" by blast
  have 2: "closing (concat (restore_calls evs)) = [Action_event [''a'', ''b'', ''c''] 3]"
    if "restore_calls evs = [[''a'', ''b''], [''b'', ''c'']]"
    unfolding that by (simp add: closing_def dict_fromkeys_def)
  from 1 2 show ?thesis by blast
qed

theorem restore_urls_accumulated_witness:
  "run_agent (Some demo_config) demo_agent_env [] =
     ([Thinking 1,
       Tool_call_event 1 ''batch_restore'' (no_args\<lparr> arg_urls := Some [''a'', ''b''] \<rparr>),
       Tool_result_event 1 ''batch_restore'' (Sum_action 2),
       Thinking 2,
       Tool_call_event 2 ''batch_restore'' (no_args\<lparr> arg_urls := Some [''b'', ''c''] \<rparr>),
       Tool_result_event 2 ''batch_restore'' (Sum_action 2),
       Thinking 3,
       Action_event [''a'', ''b'', ''c''] 3,
       Answer_event [79, 75] 3 False], None) \<and>
   restore_calls (fst (run_agent (Some demo_config) demo_agent_env []))
     = [[''a'', ''b''], [''b'', ''c'']] \<and>
   closing (concat (restore_calls (fst (run_agent (Some demo_config) demo_agent_env []))))
     = [Action_event [''a'', ''b'', ''c''] 3]"
proof -
  let ?evs = "fst (run_agent (Some demo_config) demo_agent_env [])"
  have r: "restore_calls ?evs = [[''a'', ''b''], [''b'', ''c'']]"
    unfolding demo_restore_run by (simp add: restore_of_def no_args_def)
  have l: "?evs \<noteq> []" "last ?evs = Answer_event [79, 75] 3 False"
    unfolding demo_restore_run by simp_all
  from restore_urls_accumulated[of "Some demo_config" demo_agent_env "[]" ?evs
      "snd (run_agent (Some demo_config) demo_agent_env [])" "[79, 75]" 3] l r
  have "closing (concat (restore_calls ?evs)) = [Action_event [''a'', ''b'', ''c''] 3]"
    by simp
  with r demo_restore_run show ?thesis by simp
qed


text \<open>Example data: a provider that asks for \<open>batch_restore\<close> of \<open>a, b\<close> at every step.\<close>

definition greedy_env :: agent_env where
  "greedy_env =
     \<lparr> json_loads = demo_json,
       call_llm = (\<lambda>messages. Inr \<lparr> content = [], tool_calls = [restore_call ''1''] \<rparr>),
       execute_search_tabs = (\<lambda>q k. Inr (Tool_found 0 [])),
       execute_read_tab = (\<lambda>u. Inr (Tool_error (Tool_failed []))),
       execute_list_tabs = Inr (Tool_tabs 0 []) \<rparr>"

definition greedy_step :: "nat \<Rightarrow> agent_event list" where
  "greedy_step k =
     [Thinking k,
      Tool_call_event k ''batch_restore'' (no_args\<lparr> arg_urls := Some [''a'', ''b''] \<rparr>),
      Tool_result_event k ''batch_restore'' (Sum_action 2)]"

lemma greedy_loop:
  "agent_loop greedy_env n step msgs ras =
     (concat (map greedy_step [step + 1..<step + n + 1]) @ [Answer_event APOLOGY MAX_STEPS True], None)"
proof (induction n arbitrary: step msgs ras)
  case 0
  then show ?case by simp
next
  case (Suc n)
  have d: "dispatch_tool greedy_env ''batch_restore'' (no_args\<lparr> arg_urls := Some [''a'', ''b''] \<rparr>)
             = Inr (Tool_action [''a'', ''b''] 2 [])"
    by (simp add: dispatch_tool_def execute_batch_restore_def no_args_def)
  have u: "[step + 1..<step + Suc n + 1] = (step + 1) # [step + 1 + 1..<step + 1 + n + 1]"
    by (simp add: upt_conv_Cons)
  show ?case
    unfolding u
    by (simp add: greedy_env_def[THEN arg_cong, of call_llm] greedy_env_def[THEN arg_cong, of json_loads]
        restore_call_def demo_json_def d Let_def Suc.IH greedy_step_def)
qed


lemma shape_actions:
  assumes "shape [] evs pre"
  shows "(Answer_event c k True \<in> set evs \<longrightarrow> (\<forall>e\<in>set evs. \<not> is_action e)) \<and>
         (\<forall>i<length evs. is_action (evs ! i) \<longrightarrow>
            Suc i < length evs \<and> (\<exists>c' k'. evs ! Suc i = Answer_event c' k' False))"
proof -
  from assms have pl: "plain pre"
    and form: "evs = pre \<or> evs = pre @ [Answer_event APOLOGY MAX_STEPS True] \<or>
      (\<exists>c k. evs = pre @ closing (concat (map urls_of []) @ concat (restore_calls pre))
                 @ [Answer_event c k False])"
    unfolding shape_def by blast+
  have prei: "\<not> is_action (pre ! i)" if "i < length pre" for i
    using pl that by (simp add: plain_def)
  from form consider (a) "evs = pre" | (b) "evs = pre @ [Answer_event APOLOGY MAX_STEPS True]"
    | (c) c' k' us where "evs = pre @ closing us @ [Answer_event c' k' False]" by auto
  then show ?thesis
  proof cases
    case a
    with pl prei show ?thesis by (auto simp: plain_def)
  next
    case b
    have "\<not> is_action (evs ! i)" if "i < length evs" for i
      using that prei[of i] by (cases "i < length pre") (simp_all add: b nth_append)
    moreover have "\<forall>e\<in>set evs. \<not> is_action e" using pl by (auto simp: b plain_def)
    ultimately show ?thesis by blast
  next
    case c
    have 1: "Answer_event c k True \<notin> set evs"
      using pl by (auto simp: c plain_def closing_def)
    have 2: "Suc i < length evs \<and> (\<exists>c' k'. evs ! Suc i = Answer_event c' k' False)"
      if i: "i < length evs" and act: "is_action (evs ! i)" for i
    proof (cases "us = []")
      case True
      then have e: "evs = pre @ [Answer_event c' k' False]" by (simp add: c closing_def)
      from i act prei[of i] show ?thesis
        by (cases "i < length pre") (simp_all add: e nth_append)
    next
      case False
      then obtain a where e: "evs = pre @ [a, Answer_event c' k' False]"
        by (simp add: c closing_def)
      have "i = length pre"
      proof (rule ccontr)
        assume n: "i \<noteq> length pre"
        show False
        proof (cases "i < length pre")
          case True
          with act prei[of i] show False by (simp add: e nth_append)
        next
          case False
          with n i have "i = Suc (length pre)" by (simp add: e)
          with act show False by (simp add: e nth_append)
        qed
      qed
      then show ?thesis by (simp add: e nth_append)
    qed
    from 1 2 show ?thesis by blast
  qed
qed

text \<open>
  C9.  When the steps are used up the loop ends with the truncated answer whatever
  restore actions it has collected; a run whose events contain a truncated answer
  contains no action event; and in every run an action event is directly followed by an
  answer that is not truncated.
\<close>

theorem truncated_run_has_no_action:
  assumes "run_agent config E user_query = (evs, out)"
  shows "agent_loop E 0 step messages restore_actions
           = ([Answer_event APOLOGY MAX_STEPS True], None) \<and>
         (Answer_event c k True \<in> set evs \<longrightarrow> (\<forall>e\<in>set evs. \<not> is_action e)) \<and>
         (\<forall>i<length evs. is_action (evs ! i) \<longrightarrow>
            Suc i < length evs \<and> (\<exists>c' k'. evs ! Suc i = Answer_event c' k' False))"
proof -
  from run_agent_shape[OF assms] obtain pre where "shape [] evs pre" by blast
  from shape_actions[OF this, of c k] show ?thesis by simp
qed

lemma greedy_run:
  "run_agent (Some demo_config) greedy_env [] =
     (concat (map greedy_step [1..<16]) @ [Answer_event APOLOGY MAX_STEPS True], None)"
  by (simp add: run_agent_def configured_def demo_config_def greedy_loop MAX_STEPS_def)

theorem truncated_run_has_no_action_witness:
  "run_agent (Some demo_config) greedy_env [] =
     (concat (map greedy_step [1..<16]) @ [Answer_event APOLOGY MAX_STEPS True], None) \<and>
   Answer_event APOLOGY MAX_STEPS True \<in> set (fst (run_agent (Some demo_config) greedy_env [])) \<and>
   filter is_action (fst (run_agent (Some demo_config) greedy_env [])) = [] \<and>
   length (restore_calls (fst (run_agent (Some demo_config) greedy_env []))) = 15 \<and>
   (7::nat) < length (fst (run_agent (Some demo_config) demo_agent_env [])) \<and>
   is_action (fst (run_agent (Some demo_config) demo_agent_env []) ! 7) \<and>
   fst (run_agent (Some demo_config) demo_agent_env []) ! Suc 7 = Answer_event [79, 75] 3 False"
proof -
  let ?g = "fst (run_agent (Some demo_config) greedy_env [])"
  let ?d = "fst (run_agent (Some demo_config) demo_agent_env [])"
  have a: "Answer_event APOLOGY MAX_STEPS True \<in> set ?g" by (simp add: greedy_run)
  from truncated_run_has_no_action[of "Some demo_config" greedy_env "[]" ?g
      "snd (run_agent (Some demo_config) greedy_env [])" 0 "[]" "[]" APOLOGY MAX_STEPS] a
  have "\<forall>e\<in>set ?g. \<not> is_action e" by simp
  then have f: "filter is_action ?g = []" by (simp add: filter_empty_conv)
  have u: "[1..<16] = [1, 2, 3, 4, 5, 6, 7, 8, 9, 10, 11, 12, 13, 14, 15::nat]"
    by (simp add: upt_rec)
  have r: "length (restore_calls ?g) = 15"
    unfolding greedy_run u by (simp add: greedy_step_def restore_of_def no_args_def)
  have d: "7 < length ?d" "is_action (?d ! 7)" "?d ! Suc 7 = Answer_event [79, 75] 3 False"
    unfolding demo_restore_run by simp_all
  from greedy_run a f r d show ?thesis by simp
qed


text \<open>
  C5, what the code does.  The argument string that is not valid JSON becomes the empty
  dictionary, and the \<open>tool_call\<close> event is emitted; then \<open>dispatch_tool\<close> reads a
  required key of the empty dictionary for \<open>search_tabs\<close>, \<open>read_tab\<close> and
  \<open>batch_restore\<close>, the \<open>KeyError\<close> leaves the generator, and the run ends there, with
  no \<open>tool_result\<close> event and no further step.  Only \<open>list_tabs\<close> goes on.
\<close>

theorem malformed_arguments_abort:
  assumes "configured config"
    and "call_llm E [System_msg, User_msg user_query] = Inr \<lparr> content = c, tool_calls = [tc] \<rparr>"
    and "json_loads E (tc_arguments tc) = None"
    and "tc_name tc = ''search_tabs'' \<or> tc_name tc = ''read_tab'' \<or> tc_name tc = ''batch_restore''"
  shows "\<exists>key. dispatch_tool E (tc_name tc) no_args = Inl (KeyError key) \<and>
           run_agent config E user_query
             = ([Thinking 1, Tool_call_event 1 (tc_name tc) no_args], Some (KeyError key))"
proof -
  from assms(4) obtain key where d: "dispatch_tool E (tc_name tc) no_args = Inl (KeyError key)"
    by (auto simp: dispatch_tool_def no_args_def)
  have s: "agent_loop E (Suc 14) 0 [System_msg, User_msg user_query] []
          = ([Thinking 1, Tool_call_event 1 (tc_name tc) no_args], Some (KeyError key))"
    by (subst agent_loop.simps(2)) (simp add: assms(2,3) d Let_def)
  have m: "MAX_STEPS = Suc 14" by (simp add: MAX_STEPS_def)
  have "run_agent config E user_query
             = ([Thinking 1, Tool_call_event 1 (tc_name tc) no_args], Some (KeyError key))"
    unfolding run_agent_def m s using assms(1) by simp
  with d show ?thesis by blast
qed

text \<open>Example data: a provider that asks for \<open>search_tabs\<close> with the argument string
  \<open>{\<close>, which no JSON parser accepts.\<close>

definition broken_env :: agent_env where
  "broken_env =
     \<lparr> json_loads = (\<lambda>s. None),
       call_llm = (\<lambda>messages. Inr \<lparr> content = [],
          tool_calls = [\<lparr> tc_id = ''call'', tc_name = ''search_tabs'', tc_arguments = ''{'' \<rparr>] \<rparr>),
       execute_search_tabs = (\<lambda>q k. Inr (Tool_found 0 [])),
       execute_read_tab = (\<lambda>u. Inr (Tool_error (Tool_failed []))),
       execute_list_tabs = Inr (Tool_tabs 0 []) \<rparr>"

theorem malformed_arguments_abort_witness:
  "configured (Some demo_config) \<and>
   call_llm broken_env [System_msg, User_msg []] = Inr \<lparr> content = [],
      tool_calls = [\<lparr> tc_id = ''call'', tc_name = ''search_tabs'', tc_arguments = ''{'' \<rparr>] \<rparr> \<and>
   json_loads broken_env ''{'' = None \<and>
   run_agent (Some demo_config) broken_env []
     = ([Thinking 1, Tool_call_event 1 ''search_tabs'' no_args], Some (KeyError ''query''))"
proof -
  let ?tc = "\<lparr> tc_id = ''call'', tc_name = ''search_tabs'', tc_arguments = ''{'' \<rparr>"
  have 1: "configured (Some demo_config)" by (simp add: configured_def demo_config_def)
  have 2: "call_llm broken_env [System_msg, User_msg []] = Inr \<lparr> content = [], tool_calls = [?tc] \<rparr>"
    by (simp add: broken_env_def)
  have 3: "json_loads broken_env (tc_arguments ?tc) = None" by (simp add: broken_env_def)
  have 4: "tc_name ?tc = ''search_tabs'' \<or> tc_name ?tc = ''read_tab'' \<or> tc_name ?tc = ''batch_restore''"
    by simp
  from malformed_arguments_abort[OF 1 2 3 4] obtain key where
    k: "dispatch_tool broken_env (tc_name ?tc) no_args = Inl (KeyError key)"
       "run_agent (Some demo_config) broken_env []
          = ([Thinking 1, Tool_call_event 1 (tc_name ?tc) no_args], Some (KeyError key))" by blast
  from k(1) have "key = ''query''" by (simp add: dispatch_tool_def no_args_def)
  with k(2) 1 2 3 show ?thesis by simp
qed

text \<open>
  C4, as the code has it.  The claim says that without a configured provider both the
  agent request and the LLM-search request fail at once.  The agent does: its only event
  is the error event.  The LLM-search route does not (the counterexample below):
  \<open>generate_keywords\<close> returns the error message and no keywords, the route falls back
  to the raw query as its only keyword and searches the index for it, asking for
  \<open>min(top_k * 3, 20)\<close> results.  The request raises exactly when that search raises,
  which is when the index is not empty and its query raises (an index that rejects a
  request for no results does so for \<open>top_k = 0\<close>).  Otherwise the response carries the
  raw query as the only keyword, the results of that search reranked by the heuristics
  and cut to \<open>top_k\<close>, and the message in \<open>llm_error\<close>.
\<close>

theorem unconfigured_requests:
  assumes "\<not> configured config"
  shows "run_agent config E user_query = ([Error_event LLM_not_configured], None) \<and>
         generate_keywords config S query
           = \<lparr> kw_keywords = [], kw_error = Some Keywords_not_configured \<rparr> \<and>
         (llm_search config S query top_k = None \<longleftrightarrow>
            search (col S) (encode S query) (min (top_k * 3) 20) True = None) \<and>
         (\<forall>found. search (col S) (encode S query) (min (top_k * 3) 20) True = Some found \<longrightarrow>
            llm_search config S query top_k =
              Some \<lparr> resp_keywords = [query],
                     resp_results = map to_search_result
                       (rerank_by_heuristics (uni S) query found top_k),
                     resp_llm_error = Some Keywords_not_configured \<rparr>) \<and>
         (search (col S) (encode S query) (min (top_k * 3) 20) True = None \<longleftrightarrow>
            col_count (col S) \<noteq> 0 \<and>
            col_query (col S) (encode S query)
              (min (min (top_k * 3) 20 * 5) (int (col_count (col S)))) = None)"
proof -
  have 1: "run_agent config E user_query = ([Error_event LLM_not_configured], None)"
    using assms by (simp add: run_agent_def)
  have 2: "generate_keywords config S query
           = \<lparr> kw_keywords = [], kw_error = Some Keywords_not_configured \<rparr>"
    using assms by (simp add: generate_keywords_def)
  have 3: "llm_search config S query top_k = None \<longleftrightarrow>
            search (col S) (encode S query) (min (top_k * 3) 20) True = None"
    unfolding llm_search_unconfigured[OF assms] by (simp split: option.splits)
  have 4: "llm_search config S query top_k =
              Some \<lparr> resp_keywords = [query],
                     resp_results = map to_search_result
                       (rerank_by_heuristics (uni S) query found top_k),
                     resp_llm_error = Some Keywords_not_configured \<rparr>"
    if "search (col S) (encode S query) (min (top_k * 3) 20) True = Some found" for found
    unfolding llm_search_unconfigured[OF assms] merged_for_search[OF that]
    by (simp add: rerank_by_heuristics_nil)
  have 5: "search (col S) (encode S query) (min (top_k * 3) 20) True = None \<longleftrightarrow>
            col_count (col S) \<noteq> 0 \<and>
            col_query (col S) (encode S query)
              (min (min (top_k * 3) 20 * 5) (int (col_count (col S)))) = None"
    by (simp add: search_def Let_def split: option.splits)
  from 1 2 3 4 5 show ?thesis by blast
qed

theorem unconfigured_requests_witness:
  "\<not> configured None \<and>
   run_agent None demo_agent_env [] = ([Error_event LLM_not_configured], None) \<and>
   generate_keywords None demo_services [122]
     = \<lparr> kw_keywords = [], kw_error = Some Keywords_not_configured \<rparr> \<and>
   search (col demo_services) (encode demo_services [122]) (min (2 * 3) 20) True
     = Some [demo_hit ''a'' [65] 1 (7 / 8) [122], demo_hit ''b'' [66] 2 (3 / 4) [121]] \<and>
   llm_search None demo_services [122] 2 =
     Some \<lparr> resp_keywords = [[122]],
            resp_results =
              [\<lparr> sr_url = ''a'', sr_title = [65], sr_tab_id = 1, sr_favicon = [],
                 sr_score = 1029 / 160000 \<rparr>,
               \<lparr> sr_url = ''b'', sr_title = [66], sr_tab_id = 2, sr_favicon = [],
                 sr_score = 21 / 4000 \<rparr>],
            resp_llm_error = Some Keywords_not_configured \<rparr> \<and>
   col_count (col demo_services) \<noteq> 0 \<and>
   col_query (col demo_services) (encode demo_services [122])
     (min (min (0 * 3) 20 * 5) (int (col_count (col demo_services)))) = None \<and>
   llm_search None demo_services [122] 0 = None"
proof -
  have c: "\<not> configured None" by (simp add: configured_def)
  note t2 = unconfigured_requests[OF c, of demo_agent_env "[]" demo_services "[122]" 2]
  note t0 = unconfigured_requests[OF c, of demo_agent_env "[]" demo_services "[122]" 0]
  have u: "uni demo_services = ascii" by (simp add: demo_services_def)
  have s: "search (col demo_services) (encode demo_services [122]) (min (2 * 3) 20) True
     = Some [demo_hit ''a'' [65] 1 (7 / 8) [122], demo_hit ''b'' [66] 2 (3 / 4) [121]]"
    by (simp add: demo_services_def demo_search_text)
  from t2[THEN conjunct2, THEN conjunct2, THEN conjunct2, THEN conjunct1, rule_format, OF s]
  have "llm_search None demo_services [122] 2 =
     Some \<lparr> resp_keywords = [[122]],
            resp_results = map to_search_result
              (rerank_by_heuristics (uni demo_services) [122]
                 [demo_hit ''a'' [65] 1 (7 / 8) [122], demo_hit ''b'' [66] 2 (3 / 4) [121]] 2),
            resp_llm_error = Some Keywords_not_configured \<rparr>" .
  then have l2: "llm_search None demo_services [122] 2 =
     Some \<lparr> resp_keywords = [[122]],
            resp_results =
              [\<lparr> sr_url = ''a'', sr_title = [65], sr_tab_id = 1, sr_favicon = [],
                 sr_score = 1029 / 160000 \<rparr>,
               \<lparr> sr_url = ''b'', sr_title = [66], sr_tab_id = 2, sr_favicon = [],
                 sr_score = 21 / 4000 \<rparr>],
            resp_llm_error = Some Keywords_not_configured \<rparr>"
    unfolding u demo_heuristics by (simp add: to_search_result_def demo_hit_def)
  have n: "col_count (col demo_services) \<noteq> 0" by (simp add: demo_services_def demo_collection_def)
  have q: "col_query (col demo_services) (encode demo_services [122])
     (min (min (0 * 3) 20 * 5) (int (col_count (col demo_services)))) = None"
    by (simp add: demo_services_def demo_collection_def)
  have "search (col demo_services) (encode demo_services [122]) (min (0 * 3) 20) True = None"
    by (rule iffD2[OF t0[THEN conjunct2, THEN conjunct2, THEN conjunct2, THEN conjunct2]])
      (intro conjI n q)
  then have l0: "llm_search None demo_services [122] 0 = None"
    by (rule iffD2[OF t0[THEN conjunct2, THEN conjunct2, THEN conjunct1]])
  note a = t2[THEN conjunct1]
  note k = t2[THEN conjunct2, THEN conjunct1]
  show ?thesis by (intro conjI c a k s l2 n q l0)
qed

text \<open>
  C4 as stated fails: with no configuration at all, the LLM-search request for \<open>z\<close> on
  the example index returns two results.
\<close>

theorem llm_search_answers_unconfigured:
  "\<not> configured None \<and>
   llm_search None demo_services [122] 2 \<noteq> None \<and>
   map sr_url (resp_results (the (llm_search None demo_services [122] 2))) = [''a'', ''b'']"
  by (simp add: demo_llm_search configured_def)

end
